theory Spec2Isabelle
  imports Complex_Main
begin

chapter \<open>The CloudTrail log filter: rules, evaluators, filters, validation, retry\<close>

text \<open>
  The first part of this theory embeds the Go functions of the repository that decide
  which records of a CloudTrail document are dropped: the field path resolver, the rule
  evaluators (uncompiled and with pre-compiled patterns), the batch filter, the streaming
  processor, the pattern and field path validators and the retry driver. Each Go function
  is a HOL function of the same name; a method \<^verbatim>\<open>T.m\<close> is \<open>T_m\<close>, and a loop inside a
  function is a recursive function named after it. Libraries outside the repository (the
  regular expression engine, the JSON decoder, readers and writers) are parameters or are
  modelled for the part the code uses, as said at each place. The second part states and
  proves the properties.
\<close>

section \<open>Decoded records and the field path resolver (pkg/utils/utils.go)\<close>

text \<open>
  A decoded record is what \<^verbatim>\<open>json.Unmarshal\<close> stores in a \<^verbatim>\<open>map[string]any\<close>: the
  dynamic values are nil, booleans, numbers, strings, slices and nested maps. The payload
  of a number is never inspected by the code below; it is kept as the text of the literal.
\<close>

datatype json =
    JNull
  | JBool bool
  | JNumber string
  | JString string
  | JArray "json list"
  | JObject "string \<Rightarrow> json option"

type_synonym event = "string \<Rightarrow> json option"

fun is_mapping :: "json \<Rightarrow> bool" where
  "is_mapping (JObject m) = True"
| "is_mapping v = False"

text \<open>
  \<^verbatim>\<open>strings.Split(field, ".")\<close>: the pieces between the separators; a string with \<open>n\<close>
  separators gives \<open>n + 1\<close> pieces, some of them possibly empty, and the empty string gives
  one empty piece.
\<close>

fun Split :: "string \<Rightarrow> char \<Rightarrow> string list" where
  "Split [] sep = [[]]"
| "Split (c # cs) sep =
     (if c = sep then [] # Split cs sep
      else (case Split cs sep of
              [] \<Rightarrow> [[c]]
            | p # ps \<Rightarrow> (c # p) # ps))"

text \<open>
  \<^verbatim>\<open>findField(obj, path)\<close>. The Go function returns \<^verbatim>\<open>(bool, any)\<close>; the second
  component is \<open>None\<close> where Go returns the untyped nil of a miss, and \<open>Some JNull\<close> where
  the record holds a JSON null.
\<close>

fun findField :: "event \<Rightarrow> string list \<Rightarrow> bool \<times> json option" where
  "findField obj [] = (False, None)"
| "findField obj (field # rest) =
     (case obj field of
        None \<Rightarrow> (False, None)
      | Some val \<Rightarrow>
          (case val of
             JObject nested \<Rightarrow> findField nested rest
           | _ \<Rightarrow> if length (field # rest) = 1 then (True, Some val) else (False, None)))"

definition FieldExists :: "string \<Rightarrow> event \<Rightarrow> bool \<times> json option" where
  "FieldExists field evt = findField evt (Split field (CHR ''.''))"

subsection \<open>The resolver as the specification words it\<close>

text \<open>
  The specification describes the walk in two phases: every non-final segment must lead to
  a mapping, into which the walk descends; the final segment is then looked up in the
  mapping reached, and counts as present only when the value found is not a mapping.
\<close>

fun descend :: "event \<Rightarrow> string list \<Rightarrow> event option" where
  "descend obj [] = Some obj"
| "descend obj (seg # segs) =
     (case obj seg of
        Some (JObject nested) \<Rightarrow> descend nested segs
      | _ \<Rightarrow> None)"

definition spec_resolve :: "string list \<Rightarrow> event \<Rightarrow> bool \<times> json option" where
  "spec_resolve segs evt =
     (case descend evt (butlast segs) of
        None \<Rightarrow> (False, None)
      | Some m \<Rightarrow>
          (case m (last segs) of
             None \<Rightarrow> (False, None)
           | Some v \<Rightarrow> if is_mapping v then (False, None) else (True, Some v)))"

section \<open>The rule model and its two evaluators (pkg/rules)\<close>

text \<open>
  The regular expression engine is Go's \<^verbatim>\<open>regexp\<close> package, which is not part of the
  repository. A compiled \<^verbatim>\<open>*regexp.Regexp\<close> is represented by its \<^verbatim>\<open>MatchString\<close> method,
  and \<^verbatim>\<open>regexp.Compile\<close> is a parameter of every function that calls it: it returns
  \<open>None\<close> where Go returns an error.
\<close>

type_synonym regexp = "string \<Rightarrow> bool"
type_synonym compiler = "string \<Rightarrow> regexp option"

text \<open>
  The errors that the functions below create with \<^verbatim>\<open>fmt.Errorf\<close>, one constructor for each
  message; an error that wraps another one (\<^verbatim>\<open>%w\<close>) carries it. \<open>External\<close> is an
  error that comes from outside the repository (a writer, the scanner), with its message.
\<close>

datatype error =
    External string
  | InvalidRegex string
  | FailedToCompileRegex string string
  | UnmarshalRecordFailed
  | FailedToUnmarshalRecord
  | FailedToEvaluateRules error
  | FailedToWriteHeader error
  | FailedToWriteSeparator error
  | FailedToWriteRecord error
  | FailedToWriteFooter error
  | ScannerError error
  | ContextDone

record Match =
  FieldName :: string
  Regex :: string

record Rule =
  Name :: string
  Matches :: "Match list"

record Configuration =
  Rules :: "Rule list"

record DropedEvent =
  RuleName :: string

subsection \<open>The uncompiled evaluator (rules.go)\<close>

text \<open>
  The loop of \<^verbatim>\<open>Rule.Eval\<close> over \<^verbatim>\<open>mc.Matches\<close>, with the accumulator \<^verbatim>\<open>b\<close>. A value that
  exists but is not a string takes the \<^verbatim>\<open>continue\<close> of the source, which leaves \<^verbatim>\<open>b\<close> as
  it is; a compilation error leaves the loop with the error.
\<close>

fun Rule_Eval_loop :: "compiler \<Rightarrow> Match list \<Rightarrow> event \<Rightarrow> bool \<Rightarrow> error + bool" where
  "Rule_Eval_loop compile [] evt b = Inr b"
| "Rule_Eval_loop compile (match # rest) evt b =
     (case FieldExists (FieldName match) evt of
        (exists, v) \<Rightarrow>
          if exists then
            (case v of
               Some (JString fieldValue) \<Rightarrow>
                 (case compile (Regex match) of
                    None \<Rightarrow> Inl (InvalidRegex (Regex match))
                  | Some re \<Rightarrow>
                      (let hasMatch = re fieldValue
                       in Rule_Eval_loop compile rest evt (b \<and> hasMatch)))
             | _ \<Rightarrow> Rule_Eval_loop compile rest evt b)
          else Rule_Eval_loop compile rest evt (b \<and> exists))"

definition Rule_Eval :: "compiler \<Rightarrow> Rule \<Rightarrow> event \<Rightarrow> bool \<times> DropedEvent \<times> error option" where
  "Rule_Eval compile mc evt =
     (case Rule_Eval_loop compile (Matches mc) evt True of
        Inl err \<Rightarrow> (False, \<lparr>RuleName = ''''\<rparr>, Some err)
      | Inr b \<Rightarrow>
          (b, (if b then \<lparr>RuleName = Name mc\<rparr> else \<lparr>RuleName = ''''\<rparr>), None))"

fun Configuration_EvalRules_loop ::
  "compiler \<Rightarrow> Rule list \<Rightarrow> event \<Rightarrow> bool \<times> DropedEvent option \<times> error option" where
  "Configuration_EvalRules_loop compile [] evt = (False, None, None)"
| "Configuration_EvalRules_loop compile (rule # rest) evt =
     (case Rule_Eval compile rule evt of
        (match, dropedEvent, err) \<Rightarrow>
          if err \<noteq> None then (False, None, err)
          else if match then (True, Some dropedEvent, None)
          else Configuration_EvalRules_loop compile rest evt)"

definition Configuration_EvalRules ::
  "compiler \<Rightarrow> Configuration \<Rightarrow> event \<Rightarrow> bool \<times> DropedEvent option \<times> error option" where
  "Configuration_EvalRules compile cr evt = Configuration_EvalRules_loop compile (Rules cr) evt"

subsection \<open>The compiled rule set (cached rules)\<close>

text \<open>
  The cached structures have the field names of the uncompiled ones in the source
  (\<^verbatim>\<open>FieldName\<close>, \<^verbatim>\<open>Name\<close>, \<^verbatim>\<open>Matches\<close>, \<^verbatim>\<open>Rules\<close>); they carry the prefix \<open>Cached\<close> here,
  since the fields of two records share one name space.
\<close>

record CachedMatch =
  CachedFieldName :: string
  Pattern :: regexp

record CachedRule =
  CachedName :: string
  CachedMatches :: "CachedMatch list"

record CachedConfiguration =
  CachedRules :: "CachedRule list"

text \<open>
  The process-wide \<^verbatim>\<open>regexCache\<close> is a map from pattern text to compiled matcher; it is
  passed in and returned. The two look-ups of the source (under the read lock, then again
  under the write lock) read the same map in a sequential run.
\<close>

type_synonym regexCache = "string \<Rightarrow> regexp option"

definition getOrCompileRegex ::
  "compiler \<Rightarrow> regexCache \<Rightarrow> string \<Rightarrow> (error + regexp) \<times> regexCache" where
  "getOrCompileRegex compile cache pattern =
     (case cache pattern of
        Some re \<Rightarrow> (Inr re, cache)
      | None \<Rightarrow>
          (case cache pattern of
             Some re \<Rightarrow> (Inr re, cache)
           | None \<Rightarrow>
               (case compile pattern of
                  None \<Rightarrow> (Inl (InvalidRegex pattern), cache)
                | Some re \<Rightarrow> (Inr re, cache(pattern \<mapsto> re)))))"

fun PrepareConfiguration_matches ::
  "compiler \<Rightarrow> regexCache \<Rightarrow> string \<Rightarrow> Match list \<Rightarrow> (error + CachedMatch list) \<times> regexCache" where
  "PrepareConfiguration_matches compile cache name [] = (Inr [], cache)"
| "PrepareConfiguration_matches compile cache name (match # rest) =
     (case getOrCompileRegex compile cache (Regex match) of
        (Inl err, cache') \<Rightarrow> (Inl (FailedToCompileRegex name (Regex match)), cache')
      | (Inr pattern, cache') \<Rightarrow>
          (case PrepareConfiguration_matches compile cache' name rest of
             (Inl err, cache'') \<Rightarrow> (Inl err, cache'')
           | (Inr ms, cache'') \<Rightarrow>
               (Inr (\<lparr>CachedFieldName = FieldName match, Pattern = pattern\<rparr> # ms), cache'')))"

fun PrepareConfiguration_rules ::
  "compiler \<Rightarrow> regexCache \<Rightarrow> Rule list \<Rightarrow> (error + CachedRule list) \<times> regexCache" where
  "PrepareConfiguration_rules compile cache [] = (Inr [], cache)"
| "PrepareConfiguration_rules compile cache (rule # rest) =
     (case PrepareConfiguration_matches compile cache (Name rule) (Matches rule) of
        (Inl err, cache') \<Rightarrow> (Inl err, cache')
      | (Inr ms, cache') \<Rightarrow>
          (case PrepareConfiguration_rules compile cache' rest of
             (Inl err, cache'') \<Rightarrow> (Inl err, cache'')
           | (Inr rs, cache'') \<Rightarrow>
               (Inr (\<lparr>CachedName = Name rule, CachedMatches = ms\<rparr> # rs), cache'')))"

definition PrepareConfiguration ::
  "compiler \<Rightarrow> regexCache \<Rightarrow> Configuration \<Rightarrow> (error + CachedConfiguration) \<times> regexCache" where
  "PrepareConfiguration compile cache cfg =
     (case PrepareConfiguration_rules compile cache (Rules cfg) of
        (Inl err, cache') \<Rightarrow> (Inl err, cache')
      | (Inr rs, cache') \<Rightarrow> (Inr \<lparr>CachedRules = rs\<rparr>, cache'))"

text \<open>
  The loop of \<^verbatim>\<open>CachedRule.Eval\<close>: each \<^verbatim>\<open>break\<close> of the source returns the accumulator
  as it stands.
\<close>

fun CachedRule_Eval_loop :: "CachedMatch list \<Rightarrow> event \<Rightarrow> bool \<Rightarrow> bool" where
  "CachedRule_Eval_loop [] evt allMatch = allMatch"
| "CachedRule_Eval_loop (match # rest) evt allMatch =
     (case FieldExists (CachedFieldName match) evt of
        (exists, v) \<Rightarrow>
          if exists then
            (case v of
               Some (JString fieldValue) \<Rightarrow>
                 (let hasMatch = Pattern match fieldValue;
                      allMatch' = (allMatch \<and> hasMatch)
                  in if \<not> allMatch' then allMatch'
                     else CachedRule_Eval_loop rest evt allMatch')
             | _ \<Rightarrow> False)
          else False)"

definition CachedRule_Eval :: "CachedRule \<Rightarrow> event \<Rightarrow> bool \<times> DropedEvent \<times> error option" where
  "CachedRule_Eval cr evt =
     (let allMatch = CachedRule_Eval_loop (CachedMatches cr) evt True
      in (allMatch,
          (if allMatch then \<lparr>RuleName = CachedName cr\<rparr> else \<lparr>RuleName = ''''\<rparr>),
          None))"

fun CachedConfiguration_EvalRules_loop ::
  "CachedRule list \<Rightarrow> event \<Rightarrow> bool \<times> DropedEvent option \<times> error option" where
  "CachedConfiguration_EvalRules_loop [] evt = (False, None, None)"
| "CachedConfiguration_EvalRules_loop (rule # rest) evt =
     (case CachedRule_Eval rule evt of
        (match, dropedEvent, err) \<Rightarrow>
          if err \<noteq> None then (False, None, err)
          else if match then (True, Some dropedEvent, None)
          else CachedConfiguration_EvalRules_loop rest evt)"

definition CachedConfiguration_EvalRules ::
  "CachedConfiguration \<Rightarrow> event \<Rightarrow> bool \<times> DropedEvent option \<times> error option" where
  "CachedConfiguration_EvalRules cc evt = CachedConfiguration_EvalRules_loop (CachedRules cc) evt"

subsection \<open>Matching as the specification words it\<close>

text \<open>
  A match succeeds when its field path resolves to a string and the compiled matcher
  accepts that string; a rule matches when every match in it succeeds.
\<close>

definition match_succeeds :: "CachedMatch \<Rightarrow> event \<Rightarrow> bool" where
  "match_succeeds m evt =
     (case FieldExists (CachedFieldName m) evt of
        (True, Some (JString s)) \<Rightarrow> Pattern m s
      | _ \<Rightarrow> False)"

definition rule_matches :: "CachedRule \<Rightarrow> event \<Rightarrow> bool" where
  "rule_matches r evt = list_all (\<lambda>m. match_succeeds m evt) (CachedMatches r)"

section \<open>Concrete rule sets and records used as test inputs\<close>

text \<open>
  The matchers of the test inputs are written as predicates on strings. The first rule set
  follows the seed scenario of the repository's rule tests (a rule on \<^verbatim>\<open>eventName\<close> and
  \<^verbatim>\<open>eventSource\<close>).
\<close>

text \<open>A record as in the tests of the resolver, with a sequence and a null added.\<close>

definition nested_event :: event where
  "nested_event =
     [''foo'' \<mapsto> JString ''bar'',
      ''baz'' \<mapsto> JObject [''qux'' \<mapsto> JString ''quux'',
                         ''quuux'' \<mapsto> JObject [''quuz'' \<mapsto> JString ''quuuxa'']],
      ''tags'' \<mapsto> JArray [JString ''a'', JString ''b''],
      ''nothing'' \<mapsto> JNull]"

definition kms_rules :: CachedConfiguration where
  "kms_rules =
     \<lparr>CachedRules =
        [\<lparr>CachedName = ''check_kms'',
          CachedMatches =
            [\<lparr>CachedFieldName = ''eventName'', Pattern = (\<lambda>s. s = ''Encrypt'')\<rparr>,
             \<lparr>CachedFieldName = ''eventSource'', Pattern = (\<lambda>s. take 3 s = ''kms'')\<rparr>]\<rparr>,
         \<lparr>CachedName = ''check_issuer'',
          CachedMatches =
            [\<lparr>CachedFieldName = ''userIdentity.arn'', Pattern = (\<lambda>s. True)\<rparr>]\<rparr>]\<rparr>"

definition kms_event :: event where
  "kms_event =
     [''eventName'' \<mapsto> JString ''Encrypt'',
      ''eventSource'' \<mapsto> JString ''kms.amazonaws.com'',
      ''userIdentity'' \<mapsto> JObject [''arn'' \<mapsto> JString ''arn:aws:iam::1:role/x'']]"

definition nonstring_rule :: Rule where
  "nonstring_rule =
     \<lparr>Name = ''drop_encrypt'',
      Matches = [\<lparr>FieldName = ''eventName'', Regex = ''^Encrypt$''\<rparr>]\<rparr>"

definition nonstring_event :: event where
  "nonstring_event = [''eventName'' \<mapsto> JNumber ''5'']"

subsection \<open>Relating a configuration to its compiled form\<close>

text \<open>
  \<open>compiled_from\<close> says that a cached match is the compilation of a match; \<open>string_or_absent\<close>
  says that the field of a match is absent from a record or resolves to a string.
\<close>

definition string_or_absent :: "Match \<Rightarrow> event \<Rightarrow> bool" where
  "string_or_absent m evt =
     (case FieldExists (FieldName m) evt of
        (exists, v) \<Rightarrow> if exists then (case v of Some (JString s) \<Rightarrow> True | _ \<Rightarrow> False) else True)"

definition compiled_from :: "compiler \<Rightarrow> Match \<Rightarrow> CachedMatch \<Rightarrow> bool" where
  "compiled_from compile m cm =
     (CachedFieldName cm = FieldName m \<and> compile (Regex m) = Some (Pattern cm))"

definition rule_compiled_from :: "compiler \<Rightarrow> Rule \<Rightarrow> CachedRule \<Rightarrow> bool" where
  "rule_compiled_from compile r cr =
     (CachedName cr = Name r \<and> list_all2 (compiled_from compile) (Matches r) (CachedMatches cr))"

section \<open>The batch filter (pkg/cloudtrailprocessor)\<close>

text \<open>
  A record of a Cloudtrail document is a \<^verbatim>\<open>json.RawMessage\<close>, a byte slice. The JSON
  decoder is a library outside the repository: \<^verbatim>\<open>json.Unmarshal(record, &rec)\<close> is the
  parameter \<open>unm\<close>, which returns \<open>None\<close> where the decoder returns an error. The map taken
  from \<^verbatim>\<open>recordMapPool\<close> is empty (every path clears it before putting it back), so each
  record is decoded into an empty map and the pool does not appear in the model.

  \<open>FilterRecords_batch\<close> is the inner loop over \<^verbatim>\<open>j\<close> from \<^verbatim>\<open>i\<close> to \<^verbatim>\<open>end\<close>, and
  \<open>FilterRecords_batches\<close> the outer loop over \<^verbatim>\<open>i\<close> in steps of \<^verbatim>\<open>batchSize\<close>.
\<close>

type_synonym unmarshal = "string \<Rightarrow> event option"

record Cloudtrail =
  Records :: "string list"

definition batchSize :: nat where
  "batchSize = 100"

function FilterRecords_batch ::
  "unmarshal \<Rightarrow> CachedConfiguration \<Rightarrow> string list \<Rightarrow> nat \<Rightarrow> nat \<Rightarrow> string list
     \<Rightarrow> error + string list" where
  "FilterRecords_batch unm cachedCfg records j e out =
     (if j < e then
        (case unm (records ! j) of
           None \<Rightarrow> Inl UnmarshalRecordFailed
         | Some rec \<Rightarrow>
             (case CachedConfiguration_EvalRules cachedCfg rec of
                (match, dropEvent, err) \<Rightarrow>
                  (case err of
                     Some er \<Rightarrow> Inl er
                   | None \<Rightarrow>
                       if match
                       then FilterRecords_batch unm cachedCfg records (j + 1) e out
                       else FilterRecords_batch unm cachedCfg records (j + 1) e
                              (out @ [records ! j]))))
      else Inr out)"
  by pat_completeness auto
termination
  by (relation "measure (\<lambda>(unm, cachedCfg, records, j, e, out). e - j)") auto

function FilterRecords_batches ::
  "unmarshal \<Rightarrow> CachedConfiguration \<Rightarrow> string list \<Rightarrow> nat \<Rightarrow> string list
     \<Rightarrow> error + string list" where
  "FilterRecords_batches unm cachedCfg records i out =
     (if i < length records then
        (let e = min (i + batchSize) (length records)
         in case FilterRecords_batch unm cachedCfg records i e out of
              Inl err \<Rightarrow> Inl err
            | Inr out' \<Rightarrow> FilterRecords_batches unm cachedCfg records (i + batchSize) out')
      else Inr out)"
  by pat_completeness auto
termination
  by (relation "measure (\<lambda>(unm, cachedCfg, records, i, out). length records - i)")
     (auto simp: batchSize_def)

definition FilterRecords ::
  "unmarshal \<Rightarrow> Cloudtrail \<Rightarrow> CachedConfiguration \<Rightarrow> error + Cloudtrail" where
  "FilterRecords unm inct cachedCfg =
     (case FilterRecords_batches unm cachedCfg (Records inct) 0 [] of
        Inl err \<Rightarrow> Inl err
      | Inr out \<Rightarrow> Inr \<lparr>Records = out\<rparr>)"

definition decodes :: "unmarshal \<Rightarrow> string \<Rightarrow> bool" where
  "decodes unm r = (unm r \<noteq> None)"

definition KEEP :: "unmarshal \<Rightarrow> CachedConfiguration \<Rightarrow> string \<Rightarrow> bool" where
  "KEEP unm S r =
     (case unm r of
        None \<Rightarrow> False
      | Some rec \<Rightarrow> \<not> fst (CachedConfiguration_EvalRules S rec))"

declare FilterRecords_batch.simps [simp del] FilterRecords_batches.simps [simp del]

subsection \<open>Records and a decoder used as test inputs\<close>

text \<open>
  The decoder of the test inputs knows four records and rejects every other byte string,
  among them \<^verbatim>\<open>{bad}\<close>, which is no JSON.
\<close>

definition rec_kms :: string where
  \<open>rec_kms = ''{"eventName":"Encrypt","eventSource":"kms.amazonaws.com"}''\<close>

definition rec_logs :: string where
  \<open>rec_logs = ''{"eventName":"Encrypt","eventSource":"logs.amazonaws.com"}''\<close>

definition rec_a :: string where
  \<open>rec_a = ''{"a":"1"}''\<close>

definition rec_b :: string where
  \<open>rec_b = ''{"b":"2"}''\<close>

definition rec_bad :: string where
  \<open>rec_bad = ''{bad}''\<close>

definition unmarshal_fixture :: unmarshal where
  "unmarshal_fixture r =
     (if r = rec_kms then
        Some [''eventName'' \<mapsto> JString ''Encrypt'',
              ''eventSource'' \<mapsto> JString ''kms.amazonaws.com'']
      else if r = rec_logs then
        Some [''eventName'' \<mapsto> JString ''Encrypt'',
              ''eventSource'' \<mapsto> JString ''logs.amazonaws.com'']
      else if r = rec_a then Some [''a'' \<mapsto> JString ''1'']
      else if r = rec_b then Some [''b'' \<mapsto> JString ''2'']
      else None)"

section \<open>The streaming processor (pkg/processor)\<close>

text \<open>
  \<open>ProcessStream\<close> reads its input through a \<^verbatim>\<open>bufio.Scanner\<close> and writes to an
  \<^verbatim>\<open>io.Writer\<close>; both are outside the repository. The model takes what they deliver:
  \<^item> \<open>lines\<close>, the tokens that \<^verbatim>\<open>scanner.Scan()\<close> yields in order (the lines of the input
    without their line ends), and \<open>scanErr\<close>, the value of \<^verbatim>\<open>scanner.Err()\<close> after the last
    one (a line above the 10 MiB token limit ends the scan with an error);
  \<^item> \<open>write\<close>, the \<^verbatim>\<open>Write\<close> method of the writer, a function from the state of the
    writer and the bytes to an optional error and the new state;
  \<^item> \<open>ctxDone n\<close>, whether the context is done when the loop polls it after the scanned
    line number \<open>n\<close>.
  The gzip wrapping of reader and writer (\<^verbatim>\<open>compressed = true\<close>) changes the bytes that
  reach the scanner and leave the writer, not the loop; the model is the loop. The calls
  on the metrics collector are kept as a log.
\<close>

datatype metric = RecordProcessed int | RecordFiltered int | RecordError error

record ProcessingResult =
  ProcessedCount :: int
  FilteredCount :: int
  OutputSize :: int

type_synonym 'w Write = "'w \<Rightarrow> string \<Rightarrow> error option \<times> 'w"

record 'w stream =
  foundRecords :: bool
  inRecordsArray :: bool
  bracketDepth :: int
  recordBuffer :: string
  firstRecord :: bool
  result :: ProcessingResult
  writer :: 'w
  metrics :: "metric list"

definition shouldFilterRecord ::
  "unmarshal \<Rightarrow> CachedConfiguration \<Rightarrow> string \<Rightarrow> error + bool" where
  "shouldFilterRecord unm rules recordJSON =
     (case unm recordJSON of
        None \<Rightarrow> Inl FailedToUnmarshalRecord
      | Some record \<Rightarrow>
          (case CachedConfiguration_EvalRules rules record of
             (match, dropEvent, err) \<Rightarrow>
               (case err of
                  Some er \<Rightarrow> Inl (FailedToEvaluateRules er)
                | None \<Rightarrow> Inr match)))"

definition processRecord ::
  "unmarshal \<Rightarrow> CachedConfiguration \<Rightarrow> 'w Write \<Rightarrow> string \<Rightarrow> 'w stream
     \<Rightarrow> error option \<times> 'w stream" where
  "processRecord unm rules write recordJSON st =
     (let st1 = st\<lparr>result := (result st)\<lparr>ProcessedCount := ProcessedCount (result st) + 1\<rparr>\<rparr>
      in case shouldFilterRecord unm rules recordJSON of
           Inl err \<Rightarrow> (Some err, st1)
         | Inr shouldFilter \<Rightarrow>
             if shouldFilter then
               (None,
                st1\<lparr>result := (result st1)\<lparr>FilteredCount := FilteredCount (result st1) + 1\<rparr>,
                    metrics := metrics st1 @ [RecordFiltered 1]\<rparr>)
             else
               (case (if \<not> firstRecord st1 then write (writer st1) '',''
                      else (None, writer st1)) of
                  (Some err, w) \<Rightarrow> (Some (FailedToWriteSeparator err), st1\<lparr>writer := w\<rparr>)
                | (None, w) \<Rightarrow>
                    (case write w recordJSON of
                       (Some err, w') \<Rightarrow> (Some (FailedToWriteRecord err), st1\<lparr>writer := w'\<rparr>)
                     | (None, w') \<Rightarrow>
                         (None,
                          st1\<lparr>writer := w', firstRecord := False,
                              metrics := metrics st1 @ [RecordProcessed 1]\<rparr>))))"

definition process_byte ::
  "unmarshal \<Rightarrow> CachedConfiguration \<Rightarrow> 'w Write \<Rightarrow> char \<Rightarrow> 'w stream \<Rightarrow> 'w stream" where
  "process_byte unm rules write b st =
     (if b = CHR ''{'' then
        (let st1 = (if bracketDepth st = 0 then st\<lparr>recordBuffer := []\<rparr> else st);
             st2 = st1\<lparr>bracketDepth := bracketDepth st1 + 1\<rparr>
         in st2\<lparr>recordBuffer := recordBuffer st2 @ [b]\<rparr>)
      else if b = CHR ''}'' then
        (let st1 = st\<lparr>recordBuffer := recordBuffer st @ [b]\<rparr>;
             st2 = st1\<lparr>bracketDepth := bracketDepth st1 - 1\<rparr>
         in if bracketDepth st2 = 0 \<and> length (recordBuffer st2) > 0 then
              (case processRecord unm rules write (recordBuffer st2) st2 of
                 (Some err, st3) \<Rightarrow>
                   st3\<lparr>metrics := metrics st3 @ [RecordError err], recordBuffer := []\<rparr>
               | (None, st3) \<Rightarrow> st3\<lparr>recordBuffer := []\<rparr>)
            else st2)
      else if b = CHR '']'' then
        (if bracketDepth st = 0 then st\<lparr>inRecordsArray := False\<rparr>
         else st\<lparr>recordBuffer := recordBuffer st @ [b]\<rparr>)
      else
        (if bracketDepth st > 0 then st\<lparr>recordBuffer := recordBuffer st @ [b]\<rparr> else st))"

fun process_bytes ::
  "unmarshal \<Rightarrow> CachedConfiguration \<Rightarrow> 'w Write \<Rightarrow> string \<Rightarrow> 'w stream \<Rightarrow> 'w stream" where
  "process_bytes unm rules write [] st = st"
| "process_bytes unm rules write (b # bs) st =
     process_bytes unm rules write bs (process_byte unm rules write b st)"

text \<open>
  The library functions on byte strings that the line loop uses (\<^verbatim>\<open>bytes.HasPrefix\<close>,
  \<^verbatim>\<open>bytes.TrimSpace\<close>, \<^verbatim>\<open>bytes.Contains\<close>, \<^verbatim>\<open>bytes.IndexByte\<close>).

  \<^verbatim>\<open>bytes.TrimSpace\<close> slices off the leading and then the trailing white space, as Unicode
  defines it: a byte string is read as UTF-8, and a rune is white space when it is one of
  the code points of \<^verbatim>\<open>unicode.White_Space\<close>: U+0009 to U+000D, U+0020, U+0085, U+00A0,
  U+1680, U+2000 to U+200A, U+2028, U+2029, U+202F, U+205F and U+3000. \<open>whiteSpace\<close> lists
  their UTF-8 encodings. \<open>trimLeading runes s\<close> removes from the front of \<open>s\<close> every
  leading occurrence of one of \<open>runes\<close>; the trailing white space is removed on the reversed
  string with the reversed encodings, which is how \<^verbatim>\<open>utf8.DecodeLastRune\<close> reads a rune
  from the end. A byte that begins no such encoding (every ASCII byte that is not white
  space, and every byte of an invalid or of another encoding) stops the trimming.
\<close>

fun HasPrefix :: "string \<Rightarrow> string \<Rightarrow> bool" where
  "HasPrefix s [] = True"
| "HasPrefix [] (p # ps) = False"
| "HasPrefix (c # cs) (p # ps) = (c = p \<and> HasPrefix cs ps)"

definition asciiSpace :: string where
  "asciiSpace = [CHR 0x09, CHR 0x0A, CHR 0x0B, CHR 0x0C, CHR 0x0D, CHR 0x20]"

definition whiteSpace :: "string list" where
  "whiteSpace =
     map (\<lambda>c. [c]) asciiSpace @
     [[CHR 0xC2, CHR 0x85], [CHR 0xC2, CHR 0xA0], [CHR 0xE1, CHR 0x9A, CHR 0x80]] @
     map (\<lambda>c. [CHR 0xE2, CHR 0x80, c])
       [CHR 0x80, CHR 0x81, CHR 0x82, CHR 0x83, CHR 0x84, CHR 0x85, CHR 0x86, CHR 0x87,
        CHR 0x88, CHR 0x89, CHR 0x8A, CHR 0xA8, CHR 0xA9, CHR 0xAF] @
     [[CHR 0xE2, CHR 0x81, CHR 0x9F], [CHR 0xE3, CHR 0x80, CHR 0x80]]"

definition leadingRune :: "string list \<Rightarrow> string \<Rightarrow> nat" where
  "leadingRune runes s = (case find (HasPrefix s) runes of None \<Rightarrow> 0 | Some r \<Rightarrow> length r)"

fun trimLeading :: "string list \<Rightarrow> string \<Rightarrow> string" where
  "trimLeading runes [] = []"
| "trimLeading runes (c # cs) =
     (case leadingRune runes (c # cs) of
        0 \<Rightarrow> c # cs
      | Suc n \<Rightarrow> trimLeading runes (drop n cs))"

definition TrimSpace :: "string \<Rightarrow> string" where
  "TrimSpace s = rev (trimLeading (map rev whiteSpace) (rev (trimLeading whiteSpace s)))"

fun Contains :: "string \<Rightarrow> string \<Rightarrow> bool" where
  "Contains [] substr = (substr = [])"
| "Contains (c # cs) substr = (HasPrefix (c # cs) substr \<or> Contains cs substr)"

fun IndexByte :: "string \<Rightarrow> char \<Rightarrow> nat option" where
  "IndexByte [] c = None"
| "IndexByte (b # bs) c =
     (if b = c then Some 0
      else (case IndexByte bs c of None \<Rightarrow> None | Some i \<Rightarrow> Some (i + 1)))"

text \<open>
  One iteration of the scan loop up to the poll of the context. The second component says
  whether the iteration ended in a \<^verbatim>\<open>continue\<close>, which skips the poll. The \<^verbatim>\<open>break\<close> in the
  \<^verbatim>\<open>]\<close> case of the switch leaves the switch, not the loop over the bytes of the line, so
  \<open>process_bytes\<close> runs over the whole rest of the line.
\<close>

definition process_line ::
  "unmarshal \<Rightarrow> CachedConfiguration \<Rightarrow> 'w Write \<Rightarrow> string \<Rightarrow> 'w stream \<Rightarrow> 'w stream \<times> bool" where
  \<open>process_line unm rules write line st =
     (if length (TrimSpace line) = 0 then (st, True)
      else if \<not> foundRecords st \<and> \<not> Contains line ''"Records"'' then (st, True)
      else
        (let (st1, line1) =
               (if \<not> foundRecords st then
                  (case IndexByte line (CHR ''['') of
                     Some idx \<Rightarrow>
                       (st\<lparr>foundRecords := True, inRecordsArray := True\<rparr>, drop (idx + 1) line)
                   | None \<Rightarrow> (st\<lparr>foundRecords := True\<rparr>, line))
                else (st, line))
         in if \<not> inRecordsArray st1 then (st1, True)
            else (process_bytes unm rules write line1 st1, False)))\<close>

fun scan_loop ::
  "unmarshal \<Rightarrow> CachedConfiguration \<Rightarrow> 'w Write \<Rightarrow> (nat \<Rightarrow> bool) \<Rightarrow> nat \<Rightarrow> string list
     \<Rightarrow> 'w stream \<Rightarrow> error option \<times> 'w stream" where
  "scan_loop unm rules write ctxDone n [] st = (None, st)"
| "scan_loop unm rules write ctxDone n (line # rest) st =
     (case process_line unm rules write line st of
        (st', continued) \<Rightarrow>
          if continued then scan_loop unm rules write ctxDone (n + 1) rest st'
          else if ctxDone n then (Some ContextDone, st')
          else scan_loop unm rules write ctxDone (n + 1) rest st')"

definition initial_stream :: "'w \<Rightarrow> 'w stream" where
  "initial_stream w =
     \<lparr>foundRecords = False, inRecordsArray = False, bracketDepth = 0, recordBuffer = [],
      firstRecord = True,
      result = \<lparr>ProcessedCount = 0, FilteredCount = 0, OutputSize = 0\<rparr>,
      writer = w, metrics = []\<rparr>"

definition ProcessStream ::
  "unmarshal \<Rightarrow> CachedConfiguration \<Rightarrow> 'w Write \<Rightarrow> (nat \<Rightarrow> bool) \<Rightarrow> string list
     \<Rightarrow> error option \<Rightarrow> 'w \<Rightarrow> ProcessingResult \<times> error option \<times> 'w \<times> metric list" where
  \<open>ProcessStream unm rules write ctxDone lines scanErr w0 =
     (case write w0 ''{"Records":['' of
        (Some err, w) \<Rightarrow>
          (\<lparr>ProcessedCount = 0, FilteredCount = 0, OutputSize = 0\<rparr>,
           Some (FailedToWriteHeader err), w, [])
      | (None, w) \<Rightarrow>
          (case scan_loop unm rules write ctxDone 0 lines (initial_stream w) of
             (Some err, st) \<Rightarrow> (result st, Some err, writer st, metrics st)
           | (None, st) \<Rightarrow>
               (case scanErr of
                  Some err \<Rightarrow> (result st, Some (ScannerError err), writer st, metrics st)
                | None \<Rightarrow>
                    (case write (writer st) '']}'' of
                       (Some err, w') \<Rightarrow>
                         (result st, Some (FailedToWriteFooter err), w', metrics st)
                     | (None, w') \<Rightarrow> (result st, None, w', metrics st)))))\<close>

definition buffer_write :: "string Write" where
  "buffer_write w s = (None, w @ s)"

text \<open>Two input lines for the streaming processor.\<close>

definition line_two_objects :: string where
  \<open>line_two_objects = ''{"Records":[{"a":"1"}],"x":{"b":"2"}}''\<close>

definition line_bad_record :: string where
  \<open>line_bad_record = ''{"Records":[{bad},{"a":"1"}]}''\<close>

text \<open>The state of the scan loop inside the Records array, before the first record.\<close>

definition in_array :: "string stream" where
  "in_array = (initial_stream [])\<lparr>foundRecords := True, inRecordsArray := True\<rparr>"

section \<open>The pattern validator (rules.go)\<close>

text \<open>
  \<open>containsReDoSPattern\<close> runs \<^verbatim>\<open>regexp.MatchString\<close> with six fixed regular expressions.
  Each of them is a sequence of escaped punctuation characters, the classes \<^verbatim>\<open>\w\<close> and
  \<^verbatim>\<open>\d\<close> and plain characters, so the part of Go's regular expression syntax they need is
  small: \<open>parse_atoms\<close> reads such an expression into a list of one-character atoms (an
  escaped punctuation character or a plain character stands for itself, \<^verbatim>\<open>\w\<close> for
  \<^verbatim>\<open>[0-9A-Za-z_]\<close>, \<^verbatim>\<open>\d\<close> for \<^verbatim>\<open>[0-9]\<close>) and refuses every other expression, and
  \<open>MatchString\<close> searches the subject for a place where the atoms match one after the other
  (the expressions are not anchored). \<open>MatchString\<close> returns the pair of the source:
  whether the subject matches and whether there was an error; the caller drops the error.
  The backslash is written \<open>backslash\<close>.
\<close>

datatype atom = Lit char | WordChar | Digit

definition lowercase :: string where
  "lowercase = ''abcdefghijklmnopqrstuvwxyz''"
definition uppercase :: string where
  "uppercase = ''ABCDEFGHIJKLMNOPQRSTUVWXYZ''"
definition decimal_digits :: string where
  "decimal_digits = ''0123456789''"

fun atom_matches :: "atom \<Rightarrow> char \<Rightarrow> bool" where
  "atom_matches (Lit c) b = (b = c)"
| "atom_matches WordChar b = (b \<in> set (decimal_digits @ uppercase @ lowercase @ ''_''))"
| "atom_matches Digit b = (b \<in> set decimal_digits)"

fun parse_atoms :: "string \<Rightarrow> atom list option" where
  "parse_atoms [] = Some []"
| "parse_atoms [c] =
     (if c \<in> set ([CHR 0x5C] @ ''.+*?()|[]{}^$'') then None else Some [Lit c])"
| "parse_atoms (c # d # rest) =
     (if c = CHR 0x5C then
        (if d = CHR ''w'' then map_option ((#) WordChar) (parse_atoms rest)
         else if d = CHR ''d'' then map_option ((#) Digit) (parse_atoms rest)
         else if d \<in> set ([CHR 0x5C] @ ''.+*?()|[]{}^$/'') then
           map_option ((#) (Lit d)) (parse_atoms rest)
         else None)
      else if c \<in> set ''.+*?()|[]{}^$'' then None
      else map_option ((#) (Lit c)) (parse_atoms (d # rest)))"

fun atoms_prefix :: "atom list \<Rightarrow> string \<Rightarrow> bool" where
  "atoms_prefix [] s = True"
| "atoms_prefix (a # as) [] = False"
| "atoms_prefix (a # as) (b # bs) = (atom_matches a b \<and> atoms_prefix as bs)"

fun atoms_search :: "atom list \<Rightarrow> string \<Rightarrow> bool" where
  "atoms_search as [] = atoms_prefix as []"
| "atoms_search as (b # bs) = (atoms_prefix as (b # bs) \<or> atoms_search as bs)"

definition MatchString :: "string \<Rightarrow> string \<Rightarrow> bool \<times> bool" where
  "MatchString pat s =
     (case parse_atoms pat of
        None \<Rightarrow> (False, True)
      | Some as \<Rightarrow> (atoms_search as s, False))"

definition backslash :: char where
  "backslash = CHR 0x5C"

definition dangerousPatterns :: "string list" where
  "dangerousPatterns =
     [[backslash] @ ''('' @ [backslash] @ ''.'' @ [backslash] @ ''*'' @ [backslash] @ '')'' @ [backslash] @ ''+'',
      [backslash] @ ''('' @ [backslash] @ ''.'' @ [backslash] @ ''+'' @ [backslash] @ '')'' @ [backslash] @ ''+'',
      [backslash] @ ''('' @ [backslash] @ ''w'' @ [backslash] @ ''+'' @ [backslash] @ '')'' @ [backslash] @ ''*'' @ [backslash] @ ''w'' @ [backslash] @ ''*'',
      [backslash] @ ''('' @ [backslash] @ ''d'' @ [backslash] @ ''+'' @ [backslash] @ '')'' @ [backslash] @ ''+'',
      [backslash] @ ''('' @ [backslash] @ ''.'' @ [backslash] @ ''*'' @ [backslash] @ '')'' @ [backslash] @ ''*'',
      [backslash] @ ''('' @ [backslash] @ ''['' @ [backslash] @ ''^/'' @ [backslash] @ '']'' @ [backslash] @ ''+'' @ [backslash] @ '')'' @ [backslash] @ ''+/'']"


fun containsReDoSPattern_loop :: "string list \<Rightarrow> string \<Rightarrow> bool" where
  "containsReDoSPattern_loop [] pattern = False"
| "containsReDoSPattern_loop (dangerous # rest) pattern =
     (case MatchString dangerous pattern of
        (matched, err) \<Rightarrow> if matched then True else containsReDoSPattern_loop rest pattern)"

definition containsReDoSPattern :: "string \<Rightarrow> bool" where
  "containsReDoSPattern pattern = containsReDoSPattern_loop dangerousPatterns pattern"

definition ValidateIsRegex :: "compiler \<Rightarrow> string \<Rightarrow> bool" where
  "ValidateIsRegex compile pattern =
     (if containsReDoSPattern pattern then False
      else if length pattern > 1000 then False
      else compile pattern \<noteq> None)"


text \<open>
  The six screens as atom lists, and the two shapes of the specification that contain a
  backslash: \<^verbatim>\<open>(\d+)+\<close> and \<^verbatim>\<open>(\w+)*\w*\<close>.
\<close>

definition screens :: "atom list list" where
  "screens =
     [map Lit ''(.*)+'',
      map Lit ''(.+)+'',
      [Lit (CHR ''(''), WordChar, Lit (CHR ''+''), Lit (CHR '')''), Lit (CHR ''*''), WordChar,
       Lit (CHR ''*'')],
      [Lit (CHR ''(''), Digit, Lit (CHR ''+''), Lit (CHR '')''), Lit (CHR ''+'')],
      map Lit ''(.*)*'',
      map Lit ''([^/]+)+/'']"

definition nested_digits :: string where
  "nested_digits = ''('' @ [backslash] @ ''d+)+''"

definition nested_words :: string where
  "nested_words = ''('' @ [backslash] @ ''w+)*'' @ [backslash] @ ''w*''"

section \<open>Field path validation (versioned.go)\<close>

text \<open>
  \<open>isValidFieldPath\<close> matches the path against the regular expression
  \<^verbatim>\<open>^[a-zA-Z][a-zA-Z0-9_.\-]*$\<close> (\<open>validPath_MatchString\<close>: a letter, then any number of
  characters of the second class, up to the end of the text) and then refuses a path that
  contains two dots in a row or begins or ends with a dot.
\<close>

definition HasSuffix :: "string \<Rightarrow> string \<Rightarrow> bool" where
  "HasSuffix s suffix =
     (length s \<ge> length suffix \<and> drop (length s - length suffix) s = suffix)"

definition validPath_MatchString :: "string \<Rightarrow> bool" where
  "validPath_MatchString path =
     (case path of
        [] \<Rightarrow> False
      | c # cs \<Rightarrow>
          c \<in> set (lowercase @ uppercase)
          \<and> list_all (\<lambda>b. b \<in> set (lowercase @ uppercase @ decimal_digits @ ''_.-'')) cs)"

definition isValidFieldPath :: "string \<Rightarrow> bool" where
  "isValidFieldPath path =
     (if \<not> validPath_MatchString path then False
      else if Contains path ''..'' \<or> HasPrefix path ''.'' \<or> HasSuffix path ''.'' then False
      else True)"

subsection \<open>Valid paths as the specification words them\<close>

text \<open>
  \<open>spec_valid_path\<close>: a non-empty dotted string in which every segment matches
  \<^verbatim>\<open>[A-Za-z][A-Za-z0-9_-]*\<close>. \<open>code_valid_path\<close> asks this of the first segment only, and of
  every later segment that it matches \<^verbatim>\<open>[A-Za-z0-9_-]+\<close>.
\<close>

definition is_letter :: "char \<Rightarrow> bool" where
  "is_letter c = (c \<in> set (uppercase @ lowercase))"

definition is_segment_char :: "char \<Rightarrow> bool" where
  "is_segment_char c = (c \<in> set (uppercase @ lowercase @ decimal_digits @ ''_-''))"

definition segment_ok :: "string \<Rightarrow> bool" where
  "segment_ok seg =
     (case seg of [] \<Rightarrow> False | c # cs \<Rightarrow> is_letter c \<and> list_all is_segment_char cs)"

definition spec_valid_path :: "string \<Rightarrow> bool" where
  "spec_valid_path path = (path \<noteq> [] \<and> list_all segment_ok (Split path (CHR ''.'')))"

definition later_segment_ok :: "string \<Rightarrow> bool" where
  "later_segment_ok seg = (seg \<noteq> [] \<and> list_all is_segment_char seg)"

definition code_valid_path :: "string \<Rightarrow> bool" where
  "code_valid_path path =
     (case Split path (CHR ''.'') of
        [] \<Rightarrow> False
      | first # rest \<Rightarrow> segment_ok first \<and> list_all later_segment_ok rest)"


definition is_path_char :: "char \<Rightarrow> bool" where
  "is_path_char b = (b \<in> set (lowercase @ uppercase @ decimal_digits @ ''_.-''))"

section \<open>The retry driver (pkg/retry)\<close>

text \<open>
  An error of the retry package is seen through its message only, so a Go \<^verbatim>\<open>error\<close> is a
  \<open>string option\<close>: \<open>None\<close> for nil, \<open>Some msg\<close> for an error whose \<^verbatim>\<open>Error()\<close> is \<open>msg\<close>.
  Durations are in nanoseconds. The operation \<^verbatim>\<open>fn\<close> is a closure with effects: it takes
  and returns a state. Time is not modelled: the sleep between two attempts appears only
  through the cancellation that can end it. The context is polled before each attempt
  (\<open>doneBefore attempt\<close>) and during the sleep after it (\<open>doneInSleep attempt\<close>).
\<close>

record Config =
  MaxRetries :: int
  BaseDelay :: int
  MaxDelay :: int
  Multiplier :: real
  Jitter :: bool
  RetryableError :: "string option \<Rightarrow> bool"

definition DefaultConfig :: Config where
  "DefaultConfig =
     \<lparr>MaxRetries = 3,
      BaseDelay = 100 * 1000000,
      MaxDelay = 10 * 1000000000,
      Multiplier = 2,
      Jitter = True,
      RetryableError = (\<lambda>err. True)\<rparr>"

type_synonym Option = "Config \<Rightarrow> Config"

definition WithMaxRetries :: "int \<Rightarrow> Option" where
  "WithMaxRetries n = (\<lambda>c. c\<lparr>MaxRetries := n\<rparr>)"

definition WithBaseDelay :: "int \<Rightarrow> Option" where
  "WithBaseDelay d = (\<lambda>c. c\<lparr>BaseDelay := d\<rparr>)"

definition WithMaxDelay :: "int \<Rightarrow> Option" where
  "WithMaxDelay d = (\<lambda>c. c\<lparr>MaxDelay := d\<rparr>)"

definition WithMultiplier :: "real \<Rightarrow> Option" where
  "WithMultiplier m = (\<lambda>c. c\<lparr>Multiplier := m\<rparr>)"

definition WithJitter :: "bool \<Rightarrow> Option" where
  "WithJitter enabled = (\<lambda>c. c\<lparr>Jitter := enabled\<rparr>)"

definition WithRetryableError :: "(string option \<Rightarrow> bool) \<Rightarrow> Option" where
  "WithRetryableError f = (\<lambda>c. c\<lparr>RetryableError := f\<rparr>)"

datatype retry_error =
    ContextCancelled
  | ContextCancelledDuringRetry
  | Returned string
  | FailedAfterRetries int "string option"

function DoWithConfig_loop ::
  "(int \<Rightarrow> bool) \<Rightarrow> (int \<Rightarrow> bool) \<Rightarrow> ('s \<Rightarrow> string option \<times> 's) \<Rightarrow> Config \<Rightarrow> int
     \<Rightarrow> string option \<Rightarrow> 's \<Rightarrow> retry_error option \<times> 's" where
  "DoWithConfig_loop doneBefore doneInSleep fn cfg attempt lastErr s =
     (if attempt \<le> MaxRetries cfg then
        (if doneBefore attempt then (Some ContextCancelled, s)
         else
           (case fn s of
              (None, s') \<Rightarrow> (None, s')
            | (Some err, s') \<Rightarrow>
                if \<not> RetryableError cfg (Some err) then (Some (Returned err), s')
                else if attempt = MaxRetries cfg then
                  (Some (FailedAfterRetries (MaxRetries cfg) (Some err)), s')
                else if doneInSleep attempt then (Some ContextCancelledDuringRetry, s')
                else DoWithConfig_loop doneBefore doneInSleep fn cfg (attempt + 1) (Some err) s'))
      else (Some (FailedAfterRetries (MaxRetries cfg) lastErr), s))"
  by pat_completeness auto
termination
  by (relation "measure (\<lambda>(doneBefore, doneInSleep, fn, cfg, attempt, lastErr, s).
                  nat (MaxRetries cfg + 1 - attempt))") auto

definition DoWithConfig ::
  "(int \<Rightarrow> bool) \<Rightarrow> (int \<Rightarrow> bool) \<Rightarrow> ('s \<Rightarrow> string option \<times> 's) \<Rightarrow> Config \<Rightarrow> 's
     \<Rightarrow> retry_error option \<times> 's" where
  "DoWithConfig doneBefore doneInSleep fn cfg s =
     DoWithConfig_loop doneBefore doneInSleep fn cfg 0 None s"

definition Do ::
  "(int \<Rightarrow> bool) \<Rightarrow> (int \<Rightarrow> bool) \<Rightarrow> ('s \<Rightarrow> string option \<times> 's) \<Rightarrow> Option list \<Rightarrow> 's
     \<Rightarrow> retry_error option \<times> 's" where
  "Do doneBefore doneInSleep fn opts s =
     DoWithConfig doneBefore doneInSleep fn (foldl (\<lambda>cfg opt. opt cfg) DefaultConfig opts) s"

definition slice :: "string \<Rightarrow> nat \<Rightarrow> nat \<Rightarrow> string" where
  "slice s i j = take (j - i) (drop i s)"

function containsMiddle_loop :: "string \<Rightarrow> string \<Rightarrow> nat \<Rightarrow> bool" where
  "containsMiddle_loop s substr i =
     (if i < length s - length substr then
        (if slice s i (i + length substr) = substr then True
         else containsMiddle_loop s substr (i + 1))
      else False)"
  by pat_completeness auto
termination
  by (relation "measure (\<lambda>(s, substr, i). length s - length substr - i)") auto

definition containsMiddle :: "string \<Rightarrow> string \<Rightarrow> bool" where
  "containsMiddle s substr =
     (if length s \<le> length substr then False else containsMiddle_loop s substr 1)"

definition contains :: "string \<Rightarrow> string \<Rightarrow> bool" where
  "contains s substr =
     (length substr > 0 \<and> length s \<ge> length substr \<and>
      (s = substr \<or>
       (length s > length substr \<and>
        (slice s 0 (length substr) = substr
         \<or> slice s (length s - length substr) (length s) = substr)) \<or>
       containsMiddle s substr))"

definition retryablePatterns :: "string list" where
  "retryablePatterns =
     [''timeout'',
      ''connection refused'',
      ''connection reset'',
      ''no such host'',
      ''temporary failure'',
      ''TooManyRequests'',
      ''RequestLimitExceeded'',
      ''ServiceUnavailable'',
      ''ThrottlingException'',
      ''ProvisionedThroughputExceededException'',
      ''TransactionInProgressException'',
      ''RequestThrottled'']"

fun IsRetryable_loop :: "string \<Rightarrow> string list \<Rightarrow> bool" where
  "IsRetryable_loop errStr [] = False"
| "IsRetryable_loop errStr (pattern # rest) =
     (if contains errStr pattern then True else IsRetryable_loop errStr rest)"

definition IsRetryable :: "string option \<Rightarrow> bool" where
  "IsRetryable err =
     (case err of
        None \<Rightarrow> False
      | Some errStr \<Rightarrow> IsRetryable_loop errStr retryablePatterns)"

text \<open>An operation that fails on every call with the same message and counts its calls.\<close>

definition always_fails :: "string \<Rightarrow> nat \<Rightarrow> string option \<times> nat" where
  "always_fails msg calls = (Some msg, calls + 1)"


declare containsMiddle_loop.simps [simp del] DoWithConfig_loop.simps [simp del]

section \<open>Properties of the field path resolver\<close>

lemma Split_not_Nil: "Split s sep \<noteq> []"
  by (induction s) (auto split: list.splits)

lemma spec_resolve_single:
  "spec_resolve [seg] obj =
     (case obj seg of
        None \<Rightarrow> (False, None)
      | Some v \<Rightarrow> if is_mapping v then (False, None) else (True, Some v))"
  by (simp add: spec_resolve_def)

lemma spec_resolve_step:
  "rest \<noteq> [] \<Longrightarrow>
   spec_resolve (seg # rest) obj =
     (case obj seg of
        Some (JObject nested) \<Rightarrow> spec_resolve rest nested
      | _ \<Rightarrow> (False, None))"
  by (simp add: spec_resolve_def split: option.splits json.splits)

lemma findField_single:
  "findField obj [seg] =
     (case obj seg of
        None \<Rightarrow> (False, None)
      | Some v \<Rightarrow> if is_mapping v then (False, None) else (True, Some v))"
  by (simp split: option.splits json.splits)

lemma findField_step:
  "rest \<noteq> [] \<Longrightarrow>
   findField obj (seg # rest) =
     (case obj seg of
        Some (JObject nested) \<Rightarrow> findField nested rest
      | _ \<Rightarrow> (False, None))"
  by (simp split: option.splits json.splits)

lemma findField_spec_resolve:
  "segs \<noteq> [] \<Longrightarrow> findField obj segs = spec_resolve segs obj"
proof (induction segs arbitrary: obj)
  case Nil
  then show ?case by simp
next
  case (Cons seg rest)
  show ?case
  proof (cases "rest = []")
    case True
    then show ?thesis
      by (simp only: findField_single spec_resolve_single)
  next
    case False
    have ih: "findField nested rest = spec_resolve rest nested" for nested
      using Cons.IH [OF False] .
    show ?thesis
      unfolding findField_step [OF False] spec_resolve_step [OF False]
      by (simp add: ih split: option.splits json.splits)
  qed
qed

text \<open>
  Claim C5. For every dotted field path and every decoded record, \<open>FieldExists\<close> walks the
  segments of the path: it returns \<open>(False, None)\<close> when a key lookup misses or when a
  non-final segment leads to a value that is not a mapping, and at the final segment it
  returns \<open>(True, value)\<close> exactly when the value is present and is not a mapping; a
  sequence (or a null) at the final segment is returned as present, a mapping there counts
  as not present.
\<close>

theorem FieldExists_resolves:
  "FieldExists field evt = spec_resolve (Split field (CHR ''.'')) evt"
  unfolding FieldExists_def by (rule findField_spec_resolve) (rule Split_not_Nil)

theorem FieldExists_resolves_witness:
  "FieldExists ''foo'' nested_event = (True, Some (JString ''bar''))
   \<and> FieldExists ''baz.qux'' nested_event = (True, Some (JString ''quux''))
   \<and> FieldExists ''baz.quuux.quuz'' nested_event = (True, Some (JString ''quuuxa''))
   \<and> FieldExists ''baz.quuux'' nested_event = (False, None)
   \<and> FieldExists ''tags'' nested_event = (True, Some (JArray [JString ''a'', JString ''b'']))
   \<and> FieldExists ''nothing'' nested_event = (True, Some JNull)
   \<and> FieldExists ''foo.bar'' nested_event = (False, None)
   \<and> FieldExists ''baz.missing'' nested_event = (False, None)
   \<and> FieldExists ''missing.qux'' nested_event = (False, None)"
  by (simp add: FieldExists_resolves spec_resolve_def nested_event_def)

section \<open>Properties of the compiled evaluator\<close>

lemma CachedRule_Eval_loop_all:
  "CachedRule_Eval_loop ms evt b = (b \<and> list_all (\<lambda>m. match_succeeds m evt) ms)"
proof (induction ms arbitrary: b)
  case Nil
  then show ?case by simp
next
  case (Cons m ms)
  obtain ex v where fe: "FieldExists (CachedFieldName m) evt = (ex, v)"
    by (cases "FieldExists (CachedFieldName m) evt")
  show ?case
  proof (cases "\<exists>s. ex \<and> v = Some (JString s)")
    case True
    then obtain s where "ex" "v = Some (JString s)" by blast
    with fe Cons.IH show ?thesis
      by (auto simp: match_succeeds_def Let_def)
  next
    case False
    with fe show ?thesis
      by (auto simp: match_succeeds_def split: option.splits json.splits bool.splits)
  qed
qed

lemma CachedRule_Eval_matches:
  "CachedRule_Eval r evt =
     (rule_matches r evt,
      (if rule_matches r evt then \<lparr>RuleName = CachedName r\<rparr> else \<lparr>RuleName = ''''\<rparr>),
      None)"
  by (simp add: CachedRule_Eval_def rule_matches_def CachedRule_Eval_loop_all Let_def)

lemma EvalRules_loop_find:
  "CachedConfiguration_EvalRules_loop rs evt =
     (case find (\<lambda>r. rule_matches r evt) rs of
        Some r \<Rightarrow> (True, Some \<lparr>RuleName = CachedName r\<rparr>, None)
      | None \<Rightarrow> (False, None, None))"
  by (induction rs) (simp_all add: CachedRule_Eval_matches)

lemma EvalRules_loop_early_exit:
  "rule_matches r evt \<Longrightarrow>
   CachedConfiguration_EvalRules_loop (pre @ r # post) evt =
   CachedConfiguration_EvalRules_loop (pre @ r # post') evt"
  by (induction pre) (simp_all add: CachedRule_Eval_matches)


lemma EvalRules_loop_first:
  "rule_matches r evt \<Longrightarrow> \<forall>q\<in>set pre. \<not> rule_matches q evt \<Longrightarrow>
   CachedConfiguration_EvalRules_loop (pre @ r # post) evt =
     (True, Some \<lparr>RuleName = CachedName r\<rparr>, None)"
  by (induction pre) (simp_all add: CachedRule_Eval_matches)

lemma EvalRules_loop_drop_iff:
  "fst (CachedConfiguration_EvalRules_loop rs evt) \<longleftrightarrow> (\<exists>r\<in>set rs. rule_matches r evt)"
  by (induction rs) (simp_all add: CachedRule_Eval_matches)

text \<open>
  Claim C1. For every decoded record \<open>R\<close> and every compiled rule set \<open>S\<close>,
  \<open>CachedConfiguration.EvalRules\<close> returns drop = true, with the name of the first rule in
  declared order all of whose matches succeed, if and only if some rule of \<open>S\<close> matches
  \<open>R\<close>, and drop = false otherwise. The iteration stops at the first matching rule: the
  rules after it have no influence on the result.
\<close>

theorem CachedConfiguration_EvalRules_first_match:
  "CachedConfiguration_EvalRules S R =
     (case find (\<lambda>r. rule_matches r R) (CachedRules S) of
        Some r \<Rightarrow> (True, Some \<lparr>RuleName = CachedName r\<rparr>, None)
      | None \<Rightarrow> (False, None, None))
   \<and> (fst (CachedConfiguration_EvalRules S R) \<longleftrightarrow> (\<exists>r\<in>set (CachedRules S). rule_matches r R))
   \<and> (\<forall>r. fst (CachedRule_Eval r R) = rule_matches r R)
   \<and> (\<forall>pre r post.
         CachedRules S = pre @ r # post \<and> rule_matches r R \<and> (\<forall>q\<in>set pre. \<not> rule_matches q R)
         \<longrightarrow> CachedConfiguration_EvalRules S R = (True, Some \<lparr>RuleName = CachedName r\<rparr>, None))
   \<and> (\<forall>pre r post post'.
         CachedRules S = pre @ r # post \<and> rule_matches r R
         \<longrightarrow> CachedConfiguration_EvalRules S R =
             CachedConfiguration_EvalRules \<lparr>CachedRules = pre @ r # post'\<rparr> R)"
proof (intro conjI allI impI)
  show "CachedConfiguration_EvalRules S R =
     (case find (\<lambda>r. rule_matches r R) (CachedRules S) of
        Some r \<Rightarrow> (True, Some \<lparr>RuleName = CachedName r\<rparr>, None)
      | None \<Rightarrow> (False, None, None))"
    by (simp add: CachedConfiguration_EvalRules_def EvalRules_loop_find)
  show "fst (CachedConfiguration_EvalRules S R) \<longleftrightarrow> (\<exists>r\<in>set (CachedRules S). rule_matches r R)"
    by (simp add: CachedConfiguration_EvalRules_def EvalRules_loop_drop_iff)
  show "fst (CachedRule_Eval r R) = rule_matches r R" for r
    by (simp add: CachedRule_Eval_matches)
  show "CachedConfiguration_EvalRules S R = (True, Some \<lparr>RuleName = CachedName r\<rparr>, None)"
    if "CachedRules S = pre @ r # post \<and> rule_matches r R \<and> (\<forall>q\<in>set pre. \<not> rule_matches q R)"
    for pre r post
    using that by (simp add: CachedConfiguration_EvalRules_def EvalRules_loop_first)
  show "CachedConfiguration_EvalRules S R =
          CachedConfiguration_EvalRules \<lparr>CachedRules = pre @ r # post'\<rparr> R"
    if "CachedRules S = pre @ r # post \<and> rule_matches r R" for pre r post post'
    using that EvalRules_loop_early_exit [of r R pre post post']
    by (simp add: CachedConfiguration_EvalRules_def)
qed

theorem CachedConfiguration_EvalRules_first_match_witness:
  "CachedConfiguration_EvalRules kms_rules kms_event =
     (True, Some \<lparr>RuleName = ''check_kms''\<rparr>, None)
   \<and> CachedConfiguration_EvalRules kms_rules kms_event =
     CachedConfiguration_EvalRules
       \<lparr>CachedRules = [hd (CachedRules kms_rules)]\<rparr> kms_event"
proof -
  have m: "rule_matches (hd (CachedRules kms_rules)) kms_event"
    by (simp add: kms_rules_def kms_event_def rule_matches_def match_succeeds_def FieldExists_def)
  have shape: "CachedRules kms_rules = [] @ hd (CachedRules kms_rules) # tl (CachedRules kms_rules)"
    by (simp add: kms_rules_def)
  note t = CachedConfiguration_EvalRules_first_match [of kms_rules kms_event]
  from t have first: "\<forall>pre r post.
         CachedRules kms_rules = pre @ r # post \<and> rule_matches r kms_event
           \<and> (\<forall>q\<in>set pre. \<not> rule_matches q kms_event)
         \<longrightarrow> CachedConfiguration_EvalRules kms_rules kms_event
              = (True, Some \<lparr>RuleName = CachedName r\<rparr>, None)"
    by blast
  from t have early: "\<forall>pre r post post'.
         CachedRules kms_rules = pre @ r # post \<and> rule_matches r kms_event
         \<longrightarrow> CachedConfiguration_EvalRules kms_rules kms_event =
             CachedConfiguration_EvalRules \<lparr>CachedRules = pre @ r # post'\<rparr> kms_event"
    by blast
  have a: "CachedConfiguration_EvalRules kms_rules kms_event
      = (True, Some \<lparr>RuleName = CachedName (hd (CachedRules kms_rules))\<rparr>, None)"
    using first shape m by (metis empty_iff list.set(1))
  have b: "CachedConfiguration_EvalRules kms_rules kms_event =
     CachedConfiguration_EvalRules \<lparr>CachedRules = [] @ hd (CachedRules kms_rules) # []\<rparr> kms_event"
    using early shape m by blast
  from a b show ?thesis by (simp add: kms_rules_def)
qed

section \<open>Properties of the uncompiled evaluator\<close>

lemma Rule_Eval_loop_False:
  "Rule_Eval_loop compile ms evt False = Inr b' \<Longrightarrow> \<not> b'"
proof (induction ms)
  case Nil
  then show ?case by simp
next
  case (Cons m ms)
  then show ?case
    by (auto simp: Let_def split: prod.splits if_splits option.splits json.splits)
qed

lemma Rule_Eval_loop_absent:
  "m \<in> set ms \<Longrightarrow> \<not> fst (FieldExists (FieldName m) evt) \<Longrightarrow>
   Rule_Eval_loop compile ms evt b = Inr b' \<Longrightarrow> \<not> b'"
proof (induction ms arbitrary: b)
  case Nil
  then show ?case by simp
next
  case (Cons a ms)
  show ?case
  proof (cases "a = m")
    case True
    with Cons.prems show ?thesis
      by (auto simp: Let_def split: prod.splits dest: Rule_Eval_loop_False)
  next
    case False
    with Cons.prems have "m \<in> set ms" by simp
    with Cons.IH Cons.prems(2,3) show ?thesis
      by (auto simp: Let_def split: prod.splits if_splits option.splits json.splits)
  qed
qed

lemma Rule_Eval_absent_field:
  "m \<in> set (Matches mc) \<Longrightarrow> \<not> fst (FieldExists (FieldName m) evt) \<Longrightarrow>
   \<not> fst (Rule_Eval compile mc evt)"
  by (auto simp: Rule_Eval_def split: sum.splits dest: Rule_Eval_loop_absent)

lemma CachedRule_Eval_absent_or_nonstring:
  "m \<in> set (CachedMatches cr) \<Longrightarrow>
   \<not> (\<exists>s. FieldExists (CachedFieldName m) evt = (True, Some (JString s))) \<Longrightarrow>
   \<not> fst (CachedRule_Eval cr evt)"
proof -
  assume m: "m \<in> set (CachedMatches cr)"
    and n: "\<not> (\<exists>s. FieldExists (CachedFieldName m) evt = (True, Some (JString s)))"
  from n have "\<not> match_succeeds m evt"
    by (auto simp: match_succeeds_def split: prod.splits bool.splits option.splits json.splits)
  with m have "\<not> rule_matches cr evt"
    by (auto simp: rule_matches_def list_all_iff)
  then show ?thesis by (simp add: CachedRule_Eval_matches)
qed

lemma FieldExists_nonstring_event:
  "FieldExists ''eventName'' nonstring_event = (True, Some (JNumber ''5''))"
  by (simp add: FieldExists_def nonstring_event_def)

text \<open>
  Claim C3. If a match of a rule has a field path that is absent from the record, or that
  resolves to a value which is present but is not a string, the rule does not match. The
  compiled evaluator does so (\<open>CachedRule_Eval_absent_or_nonstring\<close>), and \<open>Rule.Eval\<close> does
  so for an absent field (\<open>Rule_Eval_absent_field\<close>). For a value that is present and not a
  string, \<open>Rule.Eval\<close> takes its \<^verbatim>\<open>continue\<close> without clearing the accumulator: evaluated on
  a rule with the single match \<^verbatim>\<open>eventName\<close> and a record whose \<^verbatim>\<open>eventName\<close> is the number 5,
  it reports a match, whatever the regular expression compiles to, where the compiled
  evaluator reports none.
\<close>

theorem Rule_Eval_nonstring_field_matches:
  "Rule_Eval compile nonstring_rule nonstring_event = (True, \<lparr>RuleName = ''drop_encrypt''\<rparr>, None)
   \<and> \<not> fst (CachedRule_Eval
              \<lparr>CachedName = ''drop_encrypt'',
               CachedMatches = [\<lparr>CachedFieldName = ''eventName'', Pattern = re\<rparr>]\<rparr>
              nonstring_event)"
  by (simp add: Rule_Eval_def CachedRule_Eval_def nonstring_rule_def FieldExists_nonstring_event)

section \<open>The compiled evaluator against the uncompiled one\<close>

lemma getOrCompileRegex_sound:
  "cache \<subseteq>\<^sub>m compile \<Longrightarrow> getOrCompileRegex compile cache p = (Inr re, cache') \<Longrightarrow>
   cache' \<subseteq>\<^sub>m compile \<and> compile p = Some re"
  by (auto simp: getOrCompileRegex_def map_le_def dom_def split: option.splits if_splits)

lemma PrepareConfiguration_matches_sound:
  "cache \<subseteq>\<^sub>m compile \<Longrightarrow>
   PrepareConfiguration_matches compile cache name ms = (Inr cms, cache') \<Longrightarrow>
   cache' \<subseteq>\<^sub>m compile \<and> list_all2 (compiled_from compile) ms cms"
proof (induction ms arbitrary: cache cms cache')
  case Nil
  then show ?case by simp
next
  case (Cons m ms)
  from Cons.prems(2) obtain re c1 cms1 where
    g: "getOrCompileRegex compile cache (Regex m) = (Inr re, c1)" and
    r: "PrepareConfiguration_matches compile c1 name ms = (Inr cms1, cache')" and
    c: "cms = \<lparr>CachedFieldName = FieldName m, Pattern = re\<rparr> # cms1"
    by (auto split: prod.splits sum.splits)
  from getOrCompileRegex_sound [OF Cons.prems(1) g]
  have c1: "c1 \<subseteq>\<^sub>m compile" and re: "compile (Regex m) = Some re" by simp_all
  from Cons.IH [OF c1 r] c re show ?case
    by (simp add: compiled_from_def)
qed

lemma PrepareConfiguration_rules_sound:
  "cache \<subseteq>\<^sub>m compile \<Longrightarrow>
   PrepareConfiguration_rules compile cache rs = (Inr crs, cache') \<Longrightarrow>
   cache' \<subseteq>\<^sub>m compile \<and> list_all2 (rule_compiled_from compile) rs crs"
proof (induction rs arbitrary: cache crs cache')
  case Nil
  then show ?case by simp
next
  case (Cons r rs)
  from Cons.prems(2) obtain ms c1 crs1 where
    g: "PrepareConfiguration_matches compile cache (Name r) (Matches r) = (Inr ms, c1)" and
    rr: "PrepareConfiguration_rules compile c1 rs = (Inr crs1, cache')" and
    c: "crs = \<lparr>CachedName = Name r, CachedMatches = ms\<rparr> # crs1"
    by (auto split: prod.splits sum.splits)
  from PrepareConfiguration_matches_sound [OF Cons.prems(1) g]
  have c1: "c1 \<subseteq>\<^sub>m compile" and ms: "list_all2 (compiled_from compile) (Matches r) ms"
    by simp_all
  from Cons.IH [OF c1 rr] c ms show ?case
    by (simp add: rule_compiled_from_def)
qed

lemma Rule_Eval_loop_agrees:
  "list_all2 (compiled_from compile) ms cms \<Longrightarrow>
   list_all (\<lambda>m. string_or_absent m evt) ms \<Longrightarrow>
   Rule_Eval_loop compile ms evt b = Inr (b \<and> list_all (\<lambda>m. match_succeeds m evt) cms)"
proof (induction ms cms arbitrary: b rule: list_all2_induct)
  case Nil
  then show ?case by simp
next
  case (Cons m ms cm cms)
  from Cons.prems have rest: "list_all (\<lambda>m. string_or_absent m evt) ms"
    and here: "string_or_absent m evt" by simp_all
  obtain ex v where fe: "FieldExists (FieldName m) evt = (ex, v)"
    by (cases "FieldExists (FieldName m) evt")
  from Cons.hyps(1) have fn: "CachedFieldName cm = FieldName m"
    and re: "compile (Regex m) = Some (Pattern cm)"
    by (simp_all add: compiled_from_def)
  show ?case
  proof (cases ex)
    case True
    with here fe obtain s where v: "v = Some (JString s)"
      by (auto simp: string_or_absent_def split: option.splits json.splits)
    with True fe fn re Cons.IH [OF rest] show ?thesis
      by (auto simp: match_succeeds_def Let_def)
  next
    case False
    with fe fn Cons.IH [OF rest] show ?thesis
      by (auto simp: match_succeeds_def)
  qed
qed

lemma Rule_Eval_agrees:
  "rule_compiled_from compile r cr \<Longrightarrow>
   list_all (\<lambda>m. string_or_absent m evt) (Matches r) \<Longrightarrow>
   Rule_Eval compile r evt = CachedRule_Eval cr evt"
proof -
  assume r: "rule_compiled_from compile r cr"
    and s: "list_all (\<lambda>m. string_or_absent m evt) (Matches r)"
  from r have l: "list_all2 (compiled_from compile) (Matches r) (CachedMatches cr)"
    and n: "CachedName cr = Name r"
    by (simp_all add: rule_compiled_from_def)
  have "Rule_Eval_loop compile (Matches r) evt True = Inr (rule_matches cr evt)"
    using Rule_Eval_loop_agrees [OF l s, of True] by (simp add: rule_matches_def)
  with n show ?thesis
    by (simp add: Rule_Eval_def CachedRule_Eval_matches)
qed

lemma EvalRules_loop_agrees:
  "list_all2 (rule_compiled_from compile) rs crs \<Longrightarrow>
   list_all (\<lambda>r. list_all (\<lambda>m. string_or_absent m evt) (Matches r)) rs \<Longrightarrow>
   Configuration_EvalRules_loop compile rs evt = CachedConfiguration_EvalRules_loop crs evt"
proof (induction rs crs rule: list_all2_induct)
  case Nil
  then show ?case by simp
next
  case (Cons r rs cr crs)
  from Cons.prems have here: "list_all (\<lambda>m. string_or_absent m evt) (Matches r)"
    and rest: "list_all (\<lambda>r. list_all (\<lambda>m. string_or_absent m evt) (Matches r)) rs"
    by simp_all
  from Rule_Eval_agrees [OF Cons.hyps(1) here] Cons.IH [OF rest] show ?case
    by (simp split: prod.splits)
qed

lemma EvalRules_agree_on_string_fields:
  assumes "cache \<subseteq>\<^sub>m compile"
    and "PrepareConfiguration compile cache cfg = (Inr cc, cache')"
    and "list_all (\<lambda>r. list_all (\<lambda>m. string_or_absent m evt) (Matches r)) (Rules cfg)"
  shows "Configuration_EvalRules compile cfg evt = CachedConfiguration_EvalRules cc evt"
proof -
  from assms(2) obtain crs where
    p: "PrepareConfiguration_rules compile cache (Rules cfg) = (Inr crs, cache')"
    and cc: "cc = \<lparr>CachedRules = crs\<rparr>"
    by (auto simp: PrepareConfiguration_def split: prod.splits sum.splits)
  from PrepareConfiguration_rules_sound [OF assms(1) p]
  have "list_all2 (rule_compiled_from compile) (Rules cfg) crs" by simp
  from EvalRules_loop_agrees [OF this assms(3)] cc show ?thesis
    by (simp add: Configuration_EvalRules_def CachedConfiguration_EvalRules_def)
qed

text \<open>
  Claim C4. For every configuration accepted by \<open>PrepareConfiguration\<close> and every decoded
  record, the uncompiled and the compiled evaluator return the same drop decision and the
  same rule name. They do on every record in which each matched field is absent or a string
  (\<open>EvalRules_agree_on_string_fields\<close>). On the record whose \<^verbatim>\<open>eventName\<close> is the number 5
  they differ, for every regular expression engine that compiles the pattern of the rule:
  the uncompiled evaluator drops the record under the rule \<^verbatim>\<open>drop_encrypt\<close>, the compiled
  one keeps it.
\<close>

theorem EvalRules_differ_on_nonstring_field:
  "Configuration_EvalRules (c(''^Encrypt$'' \<mapsto> re)) \<lparr>Rules = [nonstring_rule]\<rparr> nonstring_event
     = (True, Some \<lparr>RuleName = ''drop_encrypt''\<rparr>, None)
   \<and> (case PrepareConfiguration (c(''^Encrypt$'' \<mapsto> re)) Map.empty \<lparr>Rules = [nonstring_rule]\<rparr> of
        (Inr cc, cache) \<Rightarrow> CachedConfiguration_EvalRules cc nonstring_event = (False, None, None)
      | (Inl err, cache) \<Rightarrow> False)"
  by (simp add: Configuration_EvalRules_def Rule_Eval_def nonstring_rule_def
        FieldExists_nonstring_event PrepareConfiguration_def getOrCompileRegex_def
        CachedConfiguration_EvalRules_def CachedRule_Eval_def)

section \<open>Properties of the batch filter\<close>

lemma EvalRules_no_error: "snd (snd (CachedConfiguration_EvalRules S R)) = None"
  by (simp add: CachedConfiguration_EvalRules_def EvalRules_loop_find split: option.splits)

lemma EvalRules_cases:
  obtains d where "CachedConfiguration_EvalRules S R = (True, d, None)"
  | "CachedConfiguration_EvalRules S R = (False, None, None)"
  by (cases "find (\<lambda>r. rule_matches r R) (CachedRules S)")
     (simp_all add: CachedConfiguration_EvalRules_def EvalRules_loop_find)

lemma slice_step:
  "j < e \<Longrightarrow> e \<le> length xs \<Longrightarrow>
   take (e - j) (drop j xs) = xs ! j # take (e - Suc j) (drop (Suc j) xs)"
  by (simp add: Cons_nth_drop_Suc [symmetric] take_Suc_Cons [symmetric] Suc_diff_Suc del: take_Suc_Cons)

lemma FilterRecords_batch_filter:
  "e \<le> length records \<Longrightarrow>
   FilterRecords_batch unm S records j e out =
     (if list_all (decodes unm) (take (e - j) (drop j records))
      then Inr (out @ filter (KEEP unm S) (take (e - j) (drop j records)))
      else Inl UnmarshalRecordFailed)"
proof (induction unm S records j e out rule: FilterRecords_batch.induct)
  case (1 unm S records j e out)
  show ?case
  proof (cases "j < e")
    case False
    then show ?thesis
      by (subst FilterRecords_batch.simps) simp
  next
    case True
    note sl = slice_step [OF True "1.prems"]
    show ?thesis
    proof (cases "unm (records ! j)")
      case None
      with True show ?thesis
        by (subst FilterRecords_batch.simps) (simp add: sl decodes_def)
    next
      case (Some rec)
      show ?thesis
      proof (cases rule: EvalRules_cases [of S rec])
        case (1 d)
        have "FilterRecords_batch unm S records (j + 1) e out =
           (if list_all (decodes unm) (take (e - (j + 1)) (drop (j + 1) records))
            then Inr (out @ filter (KEEP unm S) (take (e - (j + 1)) (drop (j + 1) records)))
            else Inl UnmarshalRecordFailed)"
          using "1.IH"(1) [OF True Some _ _ _ _ "1.prems", of True "(d, None)" d None] 1
          by simp
        then show ?thesis using True Some 1
          by (subst FilterRecords_batch.simps) (simp add: sl decodes_def KEEP_def)
      next
        case 2
        have "FilterRecords_batch unm S records (j + 1) e (out @ [records ! j]) =
           (if list_all (decodes unm) (take (e - (j + 1)) (drop (j + 1) records))
            then Inr ((out @ [records ! j])
                       @ filter (KEEP unm S) (take (e - (j + 1)) (drop (j + 1) records)))
            else Inl UnmarshalRecordFailed)"
          using "1.IH"(2) [OF True Some _ _ _ _ "1.prems", of False "(None, None)" None None] 2
          by simp
        then show ?thesis using True Some 2
          by (subst FilterRecords_batch.simps) (simp add: sl decodes_def KEEP_def)
      qed
    qed
  qed
qed

lemma drop_split_at:
  "i \<le> e \<Longrightarrow> drop i xs = take (e - i) (drop i xs) @ drop e xs"
  by (metis append_take_drop_id drop_drop le_add_diff_inverse2)

lemma drop_batch_end:
  "drop (i + batchSize) xs = drop (min (i + batchSize) (length xs)) xs"
  by (simp add: min_def)

lemma FilterRecords_batches_filter:
  "FilterRecords_batches unm S records i out =
     (if list_all (decodes unm) (drop i records)
      then Inr (out @ filter (KEEP unm S) (drop i records))
      else Inl UnmarshalRecordFailed)"
proof (induction unm S records i out rule: FilterRecords_batches.induct)
  case (1 unm S records i out)
  show ?case
  proof (cases "i < length records")
    case False
    then show ?thesis
      by (subst FilterRecords_batches.simps) simp
  next
    case True
    define e where "e = min (i + batchSize) (length records)"
    have ie: "i \<le> e" and el: "e \<le> length records"
      using True by (simp_all add: e_def)
    have sp: "drop i records = take (e - i) (drop i records) @ drop e records"
      by (rule drop_split_at [OF ie])
    have de: "drop (i + batchSize) records = drop e records"
      unfolding e_def by (rule drop_batch_end)
    note b = FilterRecords_batch_filter [OF el, of unm S i out]
    show ?thesis
    proof (cases "list_all (decodes unm) (take (e - i) (drop i records))")
      case False
      with b have "FilterRecords_batch unm S records i e out = Inl UnmarshalRecordFailed"
        by simp
      moreover from False have "\<not> list_all (decodes unm) (drop i records)"
        by (subst sp) simp
      ultimately show ?thesis using True
        by (subst FilterRecords_batches.simps) (simp add: e_def [symmetric] Let_def)
    next
      case t: True
      define out' where "out' = out @ filter (KEEP unm S) (take (e - i) (drop i records))"
      from t b have r: "FilterRecords_batch unm S records i e out = Inr out'"
        by (simp add: out'_def)
      have ih: "FilterRecords_batches unm S records (i + batchSize) out' =
          (if list_all (decodes unm) (drop e records)
           then Inr (out' @ filter (KEEP unm S) (drop e records))
           else Inl UnmarshalRecordFailed)"
        using "1.IH" [OF True e_def r] by (simp add: de)
      have la: "list_all (decodes unm) (drop i records) = list_all (decodes unm) (drop e records)"
        by (subst sp) (simp add: t)
      have fl: "out @ filter (KEEP unm S) (drop i records) =
                out' @ filter (KEEP unm S) (drop e records)"
        by (subst sp) (simp add: out'_def)
      show ?thesis using True r ih
        by (subst FilterRecords_batches.simps) (simp add: e_def [symmetric] Let_def la fl)
    qed
  qed
qed

lemma FilterRecords_filter:
  "FilterRecords unm inct S =
     (if list_all (decodes unm) (Records inct)
      then Inr \<lparr>Records = filter (KEEP unm S) (Records inct)\<rparr>
      else Inl UnmarshalRecordFailed)"
  by (simp add: FilterRecords_def FilterRecords_batches_filter)

lemma KEEP_decodes: "KEEP unm S r \<Longrightarrow> decodes unm r"
  by (simp add: KEEP_def decodes_def split: option.splits)

lemma kept_all_decode: "list_all (decodes unm) (filter (KEEP unm S) rs)"
  by (auto simp: list_all_iff KEEP_decodes)

text \<open>
  Claim C2. For every cached rule set and every input document, \<open>FilterRecords\<close> returns
  exactly the input records whose evaluation returns KEEP, as the original byte slices and in
  input order, and \<open>FilterRecords\<close> applied to its own output with the same rule set returns
  that output unchanged. The first conjunct also says when there is an output at all: when
  every record decodes (the other case is the fatal decode error of the batch path).
\<close>

theorem FilterRecords_keeps_in_order:
  "FilterRecords unm inct S =
     (if list_all (decodes unm) (Records inct)
      then Inr \<lparr>Records = filter (KEEP unm S) (Records inct)\<rparr>
      else Inl UnmarshalRecordFailed)
   \<and> (\<forall>outct. FilterRecords unm inct S = Inr outct \<longrightarrow>
         Records outct = filter (KEEP unm S) (Records inct)
         \<and> FilterRecords unm outct S = Inr outct)"
proof (intro conjI allI impI)
  show "FilterRecords unm inct S =
     (if list_all (decodes unm) (Records inct)
      then Inr \<lparr>Records = filter (KEEP unm S) (Records inct)\<rparr>
      else Inl UnmarshalRecordFailed)"
    by (rule FilterRecords_filter)
next
  fix outct
  assume a: "FilterRecords unm inct S = Inr outct"
  then have o: "outct = \<lparr>Records = filter (KEEP unm S) (Records inct)\<rparr>"
    by (simp add: FilterRecords_filter split: if_splits)
  then show "Records outct = filter (KEEP unm S) (Records inct)" by simp
  show "FilterRecords unm outct S = Inr outct"
    by (simp add: FilterRecords_filter o kept_all_decode)
qed

lemma KEEP_fixture:
  "\<not> KEEP unmarshal_fixture kms_rules rec_kms"
  "KEEP unmarshal_fixture kms_rules rec_logs"
  by (simp_all add: KEEP_def unmarshal_fixture_def rec_kms_def rec_logs_def
        CachedConfiguration_EvalRules_def EvalRules_loop_find kms_rules_def
        rule_matches_def match_succeeds_def FieldExists_def)

lemma decodes_fixture:
  "decodes unmarshal_fixture rec_kms" "decodes unmarshal_fixture rec_logs"
  by (simp_all add: decodes_def unmarshal_fixture_def rec_kms_def rec_logs_def)

theorem FilterRecords_keeps_in_order_witness:
  "FilterRecords unmarshal_fixture \<lparr>Records = [rec_kms, rec_logs]\<rparr> kms_rules
     = Inr \<lparr>Records = [rec_logs]\<rparr>
   \<and> FilterRecords unmarshal_fixture \<lparr>Records = [rec_logs]\<rparr> kms_rules
     = Inr \<lparr>Records = [rec_logs]\<rparr>"
proof -
  note t = FilterRecords_keeps_in_order
             [of unmarshal_fixture "\<lparr>Records = [rec_kms, rec_logs]\<rparr>" kms_rules]
  from t have a: "FilterRecords unmarshal_fixture \<lparr>Records = [rec_kms, rec_logs]\<rparr> kms_rules
     = Inr \<lparr>Records = [rec_logs]\<rparr>"
    by (simp add: KEEP_fixture decodes_fixture)
  from t a have "FilterRecords unmarshal_fixture \<lparr>Records = [rec_logs]\<rparr> kms_rules
     = Inr \<lparr>Records = [rec_logs]\<rparr>"
    by blast
  with a show ?thesis by simp
qed

section \<open>Properties of the streaming processor\<close>

lemma process_line_after_array:
  "foundRecords st \<Longrightarrow> \<not> inRecordsArray st \<Longrightarrow>
   process_line unm rules write line st = (st, True)"
  by (simp add: process_line_def)

lemma scan_loop_after_array:
  "foundRecords st \<Longrightarrow> \<not> inRecordsArray st \<Longrightarrow>
   scan_loop unm rules write ctxDone n lines st = (None, st)"
  by (induction lines arbitrary: n) (simp_all add: process_line_after_array)

text \<open>
  Claim C6. Once the \<^verbatim>\<open>]\<close> that closes the Records array is seen at bracket depth 0, no
  further record is emitted and the rest of the input is ignored. The lines after the line
  of that \<^verbatim>\<open>]\<close> are ignored (\<open>scan_loop_after_array\<close>); the rest of the same line is
  not. On the one-line document \<^verbatim>\<open>{"Records":[{"a":"1"}],"x":{"b":"2"}}\<close> the loop over the
  bytes goes on after the \<^verbatim>\<open>]\<close>, takes \<^verbatim>\<open>{"b":"2"}\<close> for a record and writes it to the
  output as a second record.
\<close>

theorem ProcessStream_emits_after_closing_bracket:
  \<open>ProcessStream unmarshal_fixture kms_rules buffer_write (\<lambda>n. False) [line_two_objects] None []
   = (\<lparr>ProcessedCount = 2, FilteredCount = 0, OutputSize = 0\<rparr>, None,
      ''{"Records":[{"a":"1"},{"b":"2"}]}'', [RecordProcessed 1, RecordProcessed 1])\<close>
  by (simp add: ProcessStream_def buffer_write_def line_two_objects_def initial_stream_def
       process_line_def TrimSpace_def leadingRune_def whiteSpace_def asciiSpace_def process_byte_def processRecord_def
       shouldFilterRecord_def unmarshal_fixture_def rec_kms_def rec_logs_def rec_a_def rec_b_def
       CachedConfiguration_EvalRules_def kms_rules_def CachedRule_Eval_def FieldExists_def Let_def)

lemma processRecord_decode_failure:
  "unm recordJSON = None \<Longrightarrow>
   processRecord unm rules write recordJSON st =
     (Some FailedToUnmarshalRecord,
      st\<lparr>result := (result st)\<lparr>ProcessedCount := ProcessedCount (result st) + 1\<rparr>\<rparr>)"
  by (simp add: processRecord_def shouldFilterRecord_def)

lemma process_byte_decode_failure:
  "bracketDepth st = 1 \<Longrightarrow> unm (recordBuffer st @ ''}'') = None \<Longrightarrow>
   process_byte unm rules write (CHR ''}'') st =
     st\<lparr>recordBuffer := [], bracketDepth := 0,
        result := (result st)\<lparr>ProcessedCount := ProcessedCount (result st) + 1\<rparr>,
        metrics := metrics st @ [RecordError FailedToUnmarshalRecord]\<rparr>"
  by (simp add: process_byte_def processRecord_decode_failure Let_def)

lemma FilterRecords_decode_failure:
  "\<not> list_all (decodes unm) (Records inct) \<Longrightarrow>
   FilterRecords unm inct S = Inl UnmarshalRecordFailed"
  by (simp add: FilterRecords_filter)

lemma processRecord_appends:
  "\<exists>x. writer (snd (processRecord unm rules buffer_write r st)) = writer st @ x"
  by (auto simp: processRecord_def buffer_write_def Let_def split: sum.splits)

lemma process_byte_appends:
  "\<exists>x. writer (process_byte unm rules buffer_write b st) = writer st @ x"
proof -
  obtain e st3 where p: "processRecord unm rules buffer_write (recordBuffer st @ [b])
       (st\<lparr>recordBuffer := recordBuffer st @ [b], bracketDepth := bracketDepth st - 1\<rparr>) = (e, st3)"
    by (cases "processRecord unm rules buffer_write (recordBuffer st @ [b])
       (st\<lparr>recordBuffer := recordBuffer st @ [b], bracketDepth := bracketDepth st - 1\<rparr>)")
  from processRecord_appends [of unm rules "recordBuffer st @ [b]"
      "st\<lparr>recordBuffer := recordBuffer st @ [b], bracketDepth := bracketDepth st - 1\<rparr>"] p
  obtain x where "writer st3 = writer st @ x" by auto
  with p show ?thesis
    by (cases e) (auto simp: process_byte_def Let_def)
qed

lemma process_bytes_appends:
  "\<exists>x. writer (process_bytes unm rules buffer_write bs st) = writer st @ x"
proof (induction bs arbitrary: st)
  case Nil
  then show ?case by simp
next
  case (Cons b bs)
  from process_byte_appends [of unm rules b st] obtain x where
    x: "writer (process_byte unm rules buffer_write b st) = writer st @ x" by blast
  from Cons.IH [of "process_byte unm rules buffer_write b st"] obtain y where
    "writer (process_bytes unm rules buffer_write bs (process_byte unm rules buffer_write b st))
       = writer (process_byte unm rules buffer_write b st) @ y" by blast
  with x show ?case by simp
qed

lemma process_bytes_appends_from:
  "writer st2 = writer st \<Longrightarrow>
   \<exists>x. writer (process_bytes unm rules buffer_write bs st2) = writer st @ x"
  using process_bytes_appends [of unm rules bs st2] by simp

lemma process_line_appends:
  "\<exists>x. writer (fst (process_line unm rules buffer_write line st)) = writer st @ x"
  by (auto simp: process_line_def Let_def process_bytes_appends_from split: option.splits)

lemma scan_loop_appends:
  "\<exists>st' x. scan_loop unm rules buffer_write (\<lambda>n. False) n lines st = (None, st')
     \<and> writer st' = writer st @ x"
proof (induction lines arbitrary: n st)
  case Nil
  then show ?case by simp
next
  case (Cons line lines)
  obtain st1 c where p: "process_line unm rules buffer_write line st = (st1, c)"
    by (cases "process_line unm rules buffer_write line st")
  from process_line_appends [of unm rules line st] p obtain x where
    x: "writer st1 = writer st @ x" by auto
  from Cons.IH [of "n + 1" st1] obtain st' y where
    "scan_loop unm rules buffer_write (\<lambda>n. False) (n + 1) lines st1 = (None, st')"
    "writer st' = writer st1 @ y" by blast
  with p x show ?case by simp
qed

lemma ProcessStream_always_completes:
  \<open>\<exists>res body ms.
     ProcessStream unm rules buffer_write (\<lambda>n. False) lines None w0 =
       (res, None, w0 @ ''{"Records":['' @ body @ '']}'', ms)\<close>
proof -
  from scan_loop_appends [of unm rules 0 lines \<open>initial_stream (w0 @ ''{"Records":['')\<close>]
  obtain st' x where
    s: \<open>scan_loop unm rules buffer_write (\<lambda>n. False) 0 lines (initial_stream (w0 @ ''{"Records":['')) = (None, st')\<close>
    and w: \<open>writer st' = writer (initial_stream (w0 @ ''{"Records":['')) @ x\<close> by blast
  from w have \<open>writer st' = w0 @ ''{"Records":['' @ x\<close>
    by (simp add: initial_stream_def)
  with s show ?thesis
    by (simp add: ProcessStream_def buffer_write_def)
qed

lemma process_bytes_append:
  "process_bytes unm rules write (xs @ ys) st =
   process_bytes unm rules write ys (process_bytes unm rules write xs st)"
  by (induction xs arbitrary: st) simp_all

lemma process_bytes_resume:
  "bracketDepth (process_bytes unm rules write pre st) = 1 \<Longrightarrow>
   unm (recordBuffer (process_bytes unm rules write pre st) @ ''}'') = None \<Longrightarrow>
   process_bytes unm rules write (pre @ CHR ''}'' # post) st =
   process_bytes unm rules write post
     ((process_bytes unm rules write pre st)
        \<lparr>recordBuffer := [], bracketDepth := 0,
         result := (result (process_bytes unm rules write pre st))
            \<lparr>ProcessedCount := ProcessedCount (result (process_bytes unm rules write pre st)) + 1\<rparr>,
         metrics := metrics (process_bytes unm rules write pre st)
                      @ [RecordError FailedToUnmarshalRecord]\<rparr>)"
  by (simp add: process_bytes_append process_byte_decode_failure)

lemma scan_loop_error:
  "fst (scan_loop unm rules write ctxDone n lines st) = None
   \<or> fst (scan_loop unm rules write ctxDone n lines st) = Some ContextDone"
  by (induction lines arbitrary: n st) (auto split: prod.splits)

lemma ProcessStream_no_decode_error:
  "fst (snd (ProcessStream unm rules write ctxDone lines scanErr w0)) \<noteq> Some FailedToUnmarshalRecord"
proof -
  obtain e w where h: \<open>write w0 ''{"Records":['' = (e, w)\<close>
    by (cases \<open>write w0 ''{"Records":[''\<close>)
  obtain r st where sl: "scan_loop unm rules write ctxDone 0 lines (initial_stream w) = (r, st)"
    by (cases "scan_loop unm rules write ctxDone 0 lines (initial_stream w)")
  from scan_loop_error [of unm rules "write" ctxDone 0 lines "initial_stream w"] sl
  have r: "r = None \<or> r = Some ContextDone" by simp
  obtain e' w' where f: \<open>write (writer st) '']}'' = (e', w')\<close>
    by (cases \<open>write (writer st) '']}''\<close>)
  show ?thesis
    using h sl r f
    by (cases e; cases scanErr; cases e') (auto simp: ProcessStream_def)
qed

lemma HasPrefix_iff: "HasPrefix s p \<longleftrightarrow> (\<exists>t. s = p @ t)"
  by (induction s p rule: HasPrefix.induct) auto

lemma leadingRune_Suc:
  "leadingRune runes s = Suc n \<Longrightarrow>
   \<exists>r\<in>set runes. length r = Suc n \<and> take (Suc n) s = r"
proof -
  assume a: "leadingRune runes s = Suc n"
  then obtain r where f: "find (HasPrefix s) runes = Some r" and l: "length r = Suc n"
    by (auto simp: leadingRune_def split: option.splits)
  from f have "r \<in> set runes" and "HasPrefix s r"
    by (auto simp: find_Some_iff)
  with l show ?thesis by (auto simp: HasPrefix_iff)
qed

lemma trimLeading_drop:
  "\<exists>k. trimLeading runes s = drop k s \<and> set (take k s) \<subseteq> \<Union> (set ` set runes)"
proof (induction runes s rule: trimLeading.induct)
  case (1 runes)
  then show ?case by simp
next
  case (2 runes c cs)
  show ?case
  proof (cases "leadingRune runes (c # cs)")
    case 0
    then have "trimLeading runes (c # cs) = drop 0 (c # cs)
               \<and> set (take 0 (c # cs)) \<subseteq> \<Union> (set ` set runes)"
      by simp
    then show ?thesis by blast
  next
    case (Suc n)
    from leadingRune_Suc [OF Suc] obtain r where r: "r \<in> set runes" "length r = Suc n"
      "take (Suc n) (c # cs) = r" by blast
    from "2.IH" [OF Suc] obtain k where k: "trimLeading runes (drop n cs) = drop k (drop n cs)"
      "set (take k (drop n cs)) \<subseteq> \<Union> (set ` set runes)" by blast
    have t: "take (Suc n + k) (c # cs) = take (Suc n) (c # cs) @ take k (drop n cs)"
      by (simp add: take_add)
    have "trimLeading runes (c # cs) = drop (Suc n + k) (c # cs)"
      using Suc k(1) by (simp add: add.commute)
    moreover have "set (take (Suc n + k) (c # cs)) \<subseteq> \<Union> (set ` set runes)"
      unfolding t using r k(2) by auto
    ultimately show ?thesis by blast
  qed
qed

lemma trimLeading_keeps:
  "c \<in> set s \<Longrightarrow> c \<notin> \<Union> (set ` set runes) \<Longrightarrow> c \<in> set (trimLeading runes s)"
proof -
  assume c: "c \<in> set s" and n: "c \<notin> \<Union> (set ` set runes)"
  from trimLeading_drop [of runes s] obtain k where
    k: "trimLeading runes s = drop k s" "set (take k s) \<subseteq> \<Union> (set ` set runes)" by blast
  have "set s = set (take k s) \<union> set (drop k s)"
    by (metis append_take_drop_id set_append)
  with c n k show ?thesis by auto
qed

lemma TrimSpace_keeps:
  "c \<in> set s \<Longrightarrow> c \<notin> \<Union> (set ` set whiteSpace) \<Longrightarrow> c \<in> set (TrimSpace s)"
proof -
  assume c: "c \<in> set s" and n: "c \<notin> \<Union> (set ` set whiteSpace)"
  from n have n': "c \<notin> \<Union> (set ` set (map rev whiteSpace))" by simp
  from trimLeading_keeps [OF c n] have "c \<in> set (rev (trimLeading whiteSpace s))" by simp
  from trimLeading_keeps [OF this n'] show ?thesis by (simp add: TrimSpace_def)
qed

lemma closing_brace_not_space: "CHR ''}'' \<notin> \<Union> (set ` set whiteSpace)"
  by (simp add: whiteSpace_def asciiSpace_def)

lemma line_with_brace_not_blank: "length (TrimSpace (pre @ CHR ''}'' # post)) \<noteq> 0"
  using TrimSpace_keeps [of "CHR ''}''" "pre @ CHR ''}'' # post"] closing_brace_not_space
  by auto

lemma scan_loop_resume:
  assumes "foundRecords st" and "inRecordsArray st" and "\<not> ctxDone n"
    and "bracketDepth (process_bytes unm rules write pre st) = 1"
    and "unm (recordBuffer (process_bytes unm rules write pre st) @ ''}'') = None"
  shows "scan_loop unm rules write ctxDone n ((pre @ CHR ''}'' # post) # rest) st =
     scan_loop unm rules write ctxDone (n + 1) rest
       (process_bytes unm rules write post
          ((process_bytes unm rules write pre st)
             \<lparr>recordBuffer := [], bracketDepth := 0,
              result := (result (process_bytes unm rules write pre st))
                 \<lparr>ProcessedCount :=
                    ProcessedCount (result (process_bytes unm rules write pre st)) + 1\<rparr>,
              metrics := metrics (process_bytes unm rules write pre st)
                           @ [RecordError FailedToUnmarshalRecord]\<rparr>))"
proof -
  have "process_line unm rules write (pre @ CHR ''}'' # post) st =
        (process_bytes unm rules write (pre @ CHR ''}'' # post) st, False)"
    using assms(1,2) line_with_brace_not_blank [of pre post]
    by (simp add: process_line_def)
  with assms(3) process_bytes_resume [OF assms(4,5), of post] show ?thesis
    by simp
qed

lemma TrimSpace_examples:
  "TrimSpace ''  ab c  '' = ''ab c''"
  "TrimSpace [CHR 0x09, CHR 0x0D] = []"
  "TrimSpace [CHR 0xC2, CHR 0xA0, CHR 0x20] = []"
  "TrimSpace [CHR 0xC2, CHR 0xA0, CHR ''x'', CHR 0xE2, CHR 0x80, CHR 0x85, CHR 0x09] = ''x''"
  "TrimSpace [CHR 0xC2, CHR 0xC2, CHR 0xA0] = [CHR 0xC2]"
  by (simp_all add: TrimSpace_def leadingRune_def whiteSpace_def asciiSpace_def)

lemma process_line_skips_no_break_space:
  "process_line unm rules write [CHR 0xC2, CHR 0xA0] st = (st, True)"
  by (simp add: process_line_def TrimSpace_def leadingRune_def whiteSpace_def asciiSpace_def)

text \<open>
  Claim C7, as stated: if decoding a single record fails, the filtering operation returns
  an error and no output is produced, on the batch path and on the streaming path. The
  streaming path does not: on the line \<^verbatim>\<open>{"Records":[{bad},{"a":"1"}]}\<close>, whose first record
  does not decode, \<open>ProcessStream\<close> returns no error and writes the document of the second
  record.
\<close>

theorem ProcessStream_survives_decode_failure:
  \<open>unmarshal_fixture rec_bad = None
   \<and> ProcessStream unmarshal_fixture kms_rules buffer_write (\<lambda>n. False) [line_bad_record] None []
   = (\<lparr>ProcessedCount = 2, FilteredCount = 0, OutputSize = 0\<rparr>, None,
      ''{"Records":[{"a":"1"}]}'', [RecordError FailedToUnmarshalRecord, RecordProcessed 1])\<close>
  by (simp add: ProcessStream_def buffer_write_def line_bad_record_def initial_stream_def
       process_line_def TrimSpace_def leadingRune_def whiteSpace_def asciiSpace_def process_byte_def processRecord_def
       shouldFilterRecord_def unmarshal_fixture_def rec_kms_def rec_logs_def rec_a_def rec_b_def
       rec_bad_def
       CachedConfiguration_EvalRules_def kms_rules_def CachedRule_Eval_def FieldExists_def Let_def)

text \<open>
  Claim C7, amended. On the batch path a record that fails to decode is fatal:
  \<open>FilterRecords\<close> returns the error and no document. On the streaming path such a record is
  not fatal: it is counted as processed and reported to the metrics collector as an error,
  nothing is written for it, and the scan resumes at the byte after the closing brace of the
  record, with an empty record buffer at depth 0, over the rest of the line and the lines
  that follow. \<open>ProcessStream\<close> never returns the decode error, and with a writer that does
  not fail, no cancellation and no scanner error it returns no error and an output made of
  the header, what the record loop wrote and the footer.
\<close>

theorem decode_failure_fatal_in_batch_skipped_in_stream:
  \<open>(\<not> list_all (decodes unm) (Records inct) \<longrightarrow>
      FilterRecords unm inct S = Inl UnmarshalRecordFailed)
   \<and> (unm recordJSON = None \<longrightarrow>
        processRecord unm rules wr recordJSON st =
          (Some FailedToUnmarshalRecord,
           st\<lparr>result := (result st)\<lparr>ProcessedCount := ProcessedCount (result st) + 1\<rparr>\<rparr>))
   \<and> (bracketDepth sb = 1 \<and> unm (recordBuffer sb @ ''}'') = None \<longrightarrow>
        process_byte unm rules wr (CHR ''}'') sb =
          sb\<lparr>recordBuffer := [], bracketDepth := 0,
             result := (result sb)\<lparr>ProcessedCount := ProcessedCount (result sb) + 1\<rparr>,
             metrics := metrics sb @ [RecordError FailedToUnmarshalRecord]\<rparr>)
   \<and> (bracketDepth (process_bytes unm rules wr pre sc) = 1
        \<and> unm (recordBuffer (process_bytes unm rules wr pre sc) @ ''}'') = None \<longrightarrow>
        process_bytes unm rules wr (pre @ CHR ''}'' # post) sc =
          process_bytes unm rules wr post
            ((process_bytes unm rules wr pre sc)
               \<lparr>recordBuffer := [], bracketDepth := 0,
                result := (result (process_bytes unm rules wr pre sc))
                   \<lparr>ProcessedCount :=
                      ProcessedCount (result (process_bytes unm rules wr pre sc)) + 1\<rparr>,
                metrics := metrics (process_bytes unm rules wr pre sc)
                             @ [RecordError FailedToUnmarshalRecord]\<rparr>))
   \<and> (foundRecords sc \<and> inRecordsArray sc \<and> \<not> ctxDone n
        \<and> bracketDepth (process_bytes unm rules wr pre sc) = 1
        \<and> unm (recordBuffer (process_bytes unm rules wr pre sc) @ ''}'') = None \<longrightarrow>
        scan_loop unm rules wr ctxDone n ((pre @ CHR ''}'' # post) # rest) sc =
          scan_loop unm rules wr ctxDone (n + 1) rest
            (process_bytes unm rules wr post
               ((process_bytes unm rules wr pre sc)
                  \<lparr>recordBuffer := [], bracketDepth := 0,
                   result := (result (process_bytes unm rules wr pre sc))
                      \<lparr>ProcessedCount :=
                         ProcessedCount (result (process_bytes unm rules wr pre sc)) + 1\<rparr>,
                   metrics := metrics (process_bytes unm rules wr pre sc)
                                @ [RecordError FailedToUnmarshalRecord]\<rparr>)))
   \<and> fst (snd (ProcessStream unm rules wr ctxDone lines scanErr w))
         \<noteq> Some FailedToUnmarshalRecord
   \<and> ProcessStream unm rules buffer_write ctxDone lines None w0 =
       (case scan_loop unm rules buffer_write ctxDone 0 lines
               (initial_stream (w0 @ ''{"Records":['')) of
          (None, sf) \<Rightarrow> (result sf, None, writer sf @ '']}'', metrics sf)
        | (Some err, sf) \<Rightarrow> (result sf, Some err, writer sf, metrics sf))
   \<and> (\<exists>res body ms.
        ProcessStream unm rules buffer_write (\<lambda>n. False) lines None w0 =
          (res, None, w0 @ ''{"Records":['' @ body @ '']}'', ms))\<close>
proof (intro conjI impI)
  show "FilterRecords unm inct S = Inl UnmarshalRecordFailed"
    if "\<not> list_all (decodes unm) (Records inct)"
    using that by (rule FilterRecords_decode_failure)
  show "processRecord unm rules wr recordJSON st =
          (Some FailedToUnmarshalRecord,
           st\<lparr>result := (result st)\<lparr>ProcessedCount := ProcessedCount (result st) + 1\<rparr>\<rparr>)"
    if "unm recordJSON = None"
    using that by (rule processRecord_decode_failure)
  show "process_byte unm rules wr (CHR ''}'') sb =
          sb\<lparr>recordBuffer := [], bracketDepth := 0,
             result := (result sb)\<lparr>ProcessedCount := ProcessedCount (result sb) + 1\<rparr>,
             metrics := metrics sb @ [RecordError FailedToUnmarshalRecord]\<rparr>"
    if "bracketDepth sb = 1 \<and> unm (recordBuffer sb @ ''}'') = None"
    using that by (simp add: process_byte_decode_failure)
  show "process_bytes unm rules wr (pre @ CHR ''}'' # post) sc =
          process_bytes unm rules wr post
            ((process_bytes unm rules wr pre sc)
               \<lparr>recordBuffer := [], bracketDepth := 0,
                result := (result (process_bytes unm rules wr pre sc))
                   \<lparr>ProcessedCount :=
                      ProcessedCount (result (process_bytes unm rules wr pre sc)) + 1\<rparr>,
                metrics := metrics (process_bytes unm rules wr pre sc)
                             @ [RecordError FailedToUnmarshalRecord]\<rparr>)"
    if "bracketDepth (process_bytes unm rules wr pre sc) = 1
        \<and> unm (recordBuffer (process_bytes unm rules wr pre sc) @ ''}'') = None"
    using that by (intro process_bytes_resume) simp_all
  show "scan_loop unm rules wr ctxDone n ((pre @ CHR ''}'' # post) # rest) sc =
          scan_loop unm rules wr ctxDone (n + 1) rest
            (process_bytes unm rules wr post
               ((process_bytes unm rules wr pre sc)
                  \<lparr>recordBuffer := [], bracketDepth := 0,
                   result := (result (process_bytes unm rules wr pre sc))
                      \<lparr>ProcessedCount :=
                         ProcessedCount (result (process_bytes unm rules wr pre sc)) + 1\<rparr>,
                   metrics := metrics (process_bytes unm rules wr pre sc)
                                @ [RecordError FailedToUnmarshalRecord]\<rparr>))"
    if "foundRecords sc \<and> inRecordsArray sc \<and> \<not> ctxDone n
        \<and> bracketDepth (process_bytes unm rules wr pre sc) = 1
        \<and> unm (recordBuffer (process_bytes unm rules wr pre sc) @ ''}'') = None"
    using that by (intro scan_loop_resume) simp_all
  show "fst (snd (ProcessStream unm rules wr ctxDone lines scanErr w))
         \<noteq> Some FailedToUnmarshalRecord"
    by (rule ProcessStream_no_decode_error)
  show \<open>ProcessStream unm rules buffer_write ctxDone lines None w0 =
       (case scan_loop unm rules buffer_write ctxDone 0 lines
               (initial_stream (w0 @ ''{"Records":['')) of
          (None, sf) \<Rightarrow> (result sf, None, writer sf @ '']}'', metrics sf)
        | (Some err, sf) \<Rightarrow> (result sf, Some err, writer sf, metrics sf))\<close>
    by (simp add: ProcessStream_def buffer_write_def split: prod.splits option.splits)
  show \<open>\<exists>res body ms.
        ProcessStream unm rules buffer_write (\<lambda>n. False) lines None w0 =
          (res, None, w0 @ ''{"Records":['' @ body @ '']}'', ms)\<close>
    by (rule ProcessStream_always_completes)
qed

theorem decode_failure_fatal_in_batch_skipped_in_stream_witness:
  \<open>FilterRecords unmarshal_fixture \<lparr>Records = [rec_a, rec_bad]\<rparr> kms_rules
     = Inl UnmarshalRecordFailed
   \<and> scan_loop unmarshal_fixture kms_rules buffer_write (\<lambda>n. False) 0
        [''{bad},{"a":"1"}]}'', ''{"b":"2"}''] in_array
     = (None,
        \<lparr>foundRecords = True, inRecordsArray = False, bracketDepth = - 1, recordBuffer = ''}'',
         firstRecord = False,
         result = \<lparr>ProcessedCount = 2, FilteredCount = 0, OutputSize = 0\<rparr>,
         writer = ''{"a":"1"}'',
         metrics = [RecordError FailedToUnmarshalRecord, RecordProcessed 1]\<rparr>)\<close>
proof -
  have d: "\<not> list_all (decodes unmarshal_fixture) (Records \<lparr>Records = [rec_a, rec_bad]\<rparr>)"
    by (simp add: decodes_def unmarshal_fixture_def rec_kms_def rec_logs_def rec_a_def rec_b_def
          rec_bad_def)
  have p: "process_bytes unmarshal_fixture kms_rules buffer_write ''{bad'' in_array
           = in_array\<lparr>bracketDepth := 1, recordBuffer := ''{bad''\<rparr>"
    by (simp add: in_array_def initial_stream_def process_byte_def)
  have n: "unmarshal_fixture (''{bad'' @ ''}'') = None"
    by (simp add: unmarshal_fixture_def rec_kms_def rec_logs_def rec_a_def rec_b_def)
  note t = decode_failure_fatal_in_batch_skipped_in_stream
             [where unm = unmarshal_fixture and inct = "\<lparr>Records = [rec_a, rec_bad]\<rparr>"
                and S = kms_rules and rules = kms_rules and wr = buffer_write
                and sc = in_array and pre = "''{bad''" and post = \<open>'',{"a":"1"}]}''\<close>
                and rest = \<open>[''{"b":"2"}'']\<close> and ctxDone = "\<lambda>n. False" and n = 0
                and st = in_array and sb = in_array and w = "[]" and w0 = "[]"
                and recordJSON = rec_bad and lines = "[]" and scanErr = None]
  note t1 = t [THEN conjunct1]
  note t5 = t [THEN conjunct2, THEN conjunct2, THEN conjunct2, THEN conjunct2, THEN conjunct1]
  from t1 d have a: "FilterRecords unmarshal_fixture \<lparr>Records = [rec_a, rec_bad]\<rparr> kms_rules
     = Inl UnmarshalRecordFailed" by (rule mp)
  have h: "foundRecords in_array \<and> inRecordsArray in_array \<and> \<not> False
        \<and> bracketDepth (process_bytes unmarshal_fixture kms_rules buffer_write ''{bad'' in_array) = 1
        \<and> unmarshal_fixture
             (recordBuffer (process_bytes unmarshal_fixture kms_rules buffer_write ''{bad'' in_array)
                @ ''}'') = None"
    unfolding p using n by (simp add: in_array_def)
  from t5 h have r: \<open>scan_loop unmarshal_fixture kms_rules buffer_write (\<lambda>n. False) 0
        [''{bad'' @ CHR ''}'' # '',{"a":"1"}]}'', ''{"b":"2"}''] in_array
     = scan_loop unmarshal_fixture kms_rules buffer_write (\<lambda>n. False) (0 + 1) [''{"b":"2"}'']
         (process_bytes unmarshal_fixture kms_rules buffer_write '',{"a":"1"}]}''
            ((process_bytes unmarshal_fixture kms_rules buffer_write ''{bad'' in_array)
               \<lparr>recordBuffer := [], bracketDepth := 0,
                result := (result (process_bytes unmarshal_fixture kms_rules buffer_write
                                     ''{bad'' in_array))
                   \<lparr>ProcessedCount :=
                      ProcessedCount (result (process_bytes unmarshal_fixture kms_rules
                                                buffer_write ''{bad'' in_array)) + 1\<rparr>,
                metrics := metrics (process_bytes unmarshal_fixture kms_rules buffer_write
                                      ''{bad'' in_array)
                             @ [RecordError FailedToUnmarshalRecord]\<rparr>))\<close>
    by (rule mp)
  have e: \<open>scan_loop unmarshal_fixture kms_rules buffer_write (\<lambda>n. False) (0 + 1) [''{"b":"2"}'']
         (process_bytes unmarshal_fixture kms_rules buffer_write '',{"a":"1"}]}''
            ((process_bytes unmarshal_fixture kms_rules buffer_write ''{bad'' in_array)
               \<lparr>recordBuffer := [], bracketDepth := 0,
                result := (result (process_bytes unmarshal_fixture kms_rules buffer_write
                                     ''{bad'' in_array))
                   \<lparr>ProcessedCount :=
                      ProcessedCount (result (process_bytes unmarshal_fixture kms_rules
                                                buffer_write ''{bad'' in_array)) + 1\<rparr>,
                metrics := metrics (process_bytes unmarshal_fixture kms_rules buffer_write
                                      ''{bad'' in_array)
                             @ [RecordError FailedToUnmarshalRecord]\<rparr>))
      = (None,
        \<lparr>foundRecords = True, inRecordsArray = False, bracketDepth = - 1, recordBuffer = ''}'',
         firstRecord = False,
         result = \<lparr>ProcessedCount = 2, FilteredCount = 0, OutputSize = 0\<rparr>,
         writer = ''{"a":"1"}'',
         metrics = [RecordError FailedToUnmarshalRecord, RecordProcessed 1]\<rparr>)\<close>
    unfolding p
    by (simp add: in_array_def initial_stream_def process_line_def process_byte_def
          processRecord_def shouldFilterRecord_def unmarshal_fixture_def rec_kms_def rec_logs_def
          rec_a_def rec_b_def buffer_write_def
          CachedConfiguration_EvalRules_def kms_rules_def CachedRule_Eval_def FieldExists_def
          Let_def TrimSpace_def leadingRune_def whiteSpace_def asciiSpace_def)
  from r e have \<open>scan_loop unmarshal_fixture kms_rules buffer_write (\<lambda>n. False) 0
        [''{bad'' @ CHR ''}'' # '',{"a":"1"}]}'', ''{"b":"2"}''] in_array
      = (None,
        \<lparr>foundRecords = True, inRecordsArray = False, bracketDepth = - 1, recordBuffer = ''}'',
         firstRecord = False,
         result = \<lparr>ProcessedCount = 2, FilteredCount = 0, OutputSize = 0\<rparr>,
         writer = ''{"a":"1"}'',
         metrics = [RecordError FailedToUnmarshalRecord, RecordProcessed 1]\<rparr>)\<close>
    by (rule trans)
  then have b: \<open>scan_loop unmarshal_fixture kms_rules buffer_write (\<lambda>n. False) 0
        [''{bad},{"a":"1"}]}'', ''{"b":"2"}''] in_array
      = (None,
        \<lparr>foundRecords = True, inRecordsArray = False, bracketDepth = - 1, recordBuffer = ''}'',
         firstRecord = False,
         result = \<lparr>ProcessedCount = 2, FilteredCount = 0, OutputSize = 0\<rparr>,
         writer = ''{"a":"1"}'',
         metrics = [RecordError FailedToUnmarshalRecord, RecordProcessed 1]\<rparr>)\<close>
    by (simp only: append.simps)
  from a b show ?thesis by (rule conjI)
qed

section \<open>Properties of the pattern validator\<close>

lemma atoms_prefix_iff:
  "atoms_prefix as s \<longleftrightarrow> (\<exists>w post. s = w @ post \<and> list_all2 atom_matches as w)"
proof (induction as s rule: atoms_prefix.induct)
  case (1 s)
  then show ?case by simp
next
  case (2 a as)
  then show ?case by simp
next
  case (3 a as b bs)
  show ?case
  proof
    assume "atoms_prefix (a # as) (b # bs)"
    with 3 obtain w post where "bs = w @ post" "list_all2 atom_matches as w" "atom_matches a b"
      by auto
    then have "b # bs = (b # w) @ post \<and> list_all2 atom_matches (a # as) (b # w)" by simp
    then show "\<exists>w post. b # bs = w @ post \<and> list_all2 atom_matches (a # as) w" by blast
  next
    assume "\<exists>w post. b # bs = w @ post \<and> list_all2 atom_matches (a # as) w"
    then obtain w post where w: "b # bs = w @ post" "list_all2 atom_matches (a # as) w" by blast
    then obtain w' where "w = b # w'" "atom_matches a b" "list_all2 atom_matches as w'"
      by (cases w) auto
    with w 3 show "atoms_prefix (a # as) (b # bs)" by auto
  qed
qed

lemma atoms_search_iff:
  "atoms_search as s \<longleftrightarrow> (\<exists>pre w post. s = pre @ w @ post \<and> list_all2 atom_matches as w)"
proof (induction s)
  case Nil
  then show ?case by (auto simp: atoms_prefix_iff)
next
  case (Cons b bs)
  show ?case
  proof
    assume "atoms_search as (b # bs)"
    then consider "atoms_prefix as (b # bs)" | "atoms_search as bs" by auto
    then show "\<exists>pre w post. b # bs = pre @ w @ post \<and> list_all2 atom_matches as w"
    proof cases
      case 1
      then obtain w post where "b # bs = [] @ w @ post" "list_all2 atom_matches as w"
        by (auto simp: atoms_prefix_iff)
      then show ?thesis by blast
    next
      case 2
      with Cons obtain pre w post where "bs = pre @ w @ post" "list_all2 atom_matches as w"
        by blast
      then have "b # bs = (b # pre) @ w @ post \<and> list_all2 atom_matches as w" by simp
      then show ?thesis by blast
    qed
  next
    assume "\<exists>pre w post. b # bs = pre @ w @ post \<and> list_all2 atom_matches as w"
    then obtain pre w post where e: "b # bs = pre @ w @ post" and m: "list_all2 atom_matches as w"
      by blast
    show "atoms_search as (b # bs)"
    proof (cases pre)
      case Nil
      with e m have "atoms_prefix as (b # bs)" by (auto simp: atoms_prefix_iff)
      then show ?thesis by simp
    next
      case (Cons p pre')
      with e have "bs = pre' @ w @ post" by simp
      with m Cons.IH have "atoms_search as bs" by blast
      then show ?thesis by simp
    qed
  qed
qed

lemma parse_dangerousPatterns: "map parse_atoms dangerousPatterns = map Some screens"
  by (simp add: dangerousPatterns_def screens_def backslash_def)

lemma containsReDoSPattern_loop_iff:
  "map parse_atoms ds = map Some scs \<Longrightarrow>
   containsReDoSPattern_loop ds pattern \<longleftrightarrow> (\<exists>as\<in>set scs. atoms_search as pattern)"
proof (induction ds arbitrary: scs)
  case Nil
  then show ?case by simp
next
  case (Cons d ds)
  then obtain sc scs' where s: "scs = sc # scs'" "parse_atoms d = Some sc"
    "map parse_atoms ds = map Some scs'"
    by (cases scs) auto
  with Cons.IH [of scs'] show ?case
    by (simp add: MatchString_def)
qed

lemma containsReDoSPattern_iff:
  "containsReDoSPattern pattern \<longleftrightarrow>
     (\<exists>as\<in>set screens. \<exists>pre w post. pattern = pre @ w @ post \<and> list_all2 atom_matches as w)"
  unfolding containsReDoSPattern_def
  by (simp add: containsReDoSPattern_loop_iff [OF parse_dangerousPatterns] atoms_search_iff)

lemma list_all2_Lit: "list_all2 atom_matches (map Lit w) w"
  by (induction w) simp_all

lemma containsReDoSPattern_literal:
  "map Lit w \<in> set screens \<Longrightarrow> containsReDoSPattern (pre @ w @ post)"
  unfolding containsReDoSPattern_iff using list_all2_Lit by blast

lemma literal_shapes_caught:
  "containsReDoSPattern (pre @ ''(.*)+'' @ post)"
  "containsReDoSPattern (pre @ ''(.+)+'' @ post)"
  "containsReDoSPattern (pre @ ''(.*)*'' @ post)"
  "containsReDoSPattern (pre @ ''([^/]+)+/'' @ post)"
  by (rule containsReDoSPattern_literal, simp add: screens_def)+

lemma ValidateIsRegex_iff:
  "ValidateIsRegex compile pattern \<longleftrightarrow>
     \<not> containsReDoSPattern pattern \<and> length pattern \<le> 1000 \<and> compile pattern \<noteq> None"
  by (auto simp: ValidateIsRegex_def)

lemma ValidateIsRegex_length_1000:
  "length pattern = 1000 \<Longrightarrow> \<not> containsReDoSPattern pattern \<Longrightarrow> compile pattern \<noteq> None \<Longrightarrow>
   ValidateIsRegex compile pattern"
  by (simp add: ValidateIsRegex_iff)

lemma ValidateIsRegex_length_1001:
  "length pattern = 1001 \<Longrightarrow> \<not> ValidateIsRegex compile pattern"
  by (simp add: ValidateIsRegex_iff)

lemma not_flagged:
  "\<not> containsReDoSPattern nested_digits" "\<not> containsReDoSPattern nested_words"
  by (simp_all add: containsReDoSPattern_def dangerousPatterns_def MatchString_def backslash_def
        nested_digits_def nested_words_def decimal_digits_def uppercase_def lowercase_def)

lemma short_patterns:
  "length nested_digits \<le> 1000" "length nested_words \<le> 1000"
  by (simp_all add: nested_digits_def nested_words_def)

lemma digit_group_flagged: "containsReDoSPattern ''(5+)+''"
  by (simp add: containsReDoSPattern_def dangerousPatterns_def MatchString_def backslash_def
        decimal_digits_def uppercase_def lowercase_def)

text \<open>
  Claim C8. \<open>ValidateIsRegex\<close> rejects a pattern if and only if it is longer than 1000
  characters, or does not compile, or contains a literal occurrence of one of the six
  shapes \<^verbatim>\<open>(.*)+\<close>, \<^verbatim>\<open>(.+)+\<close>, \<^verbatim>\<open>(.*)*\<close>, \<^verbatim>\<open>(\w+)*\w*\<close>, \<^verbatim>\<open>(\d+)+\<close>, \<^verbatim>\<open>([^/]+)+/\<close>. The
  length bound and the four shapes without a backslash are as claimed
  (\<open>ValidateIsRegex_iff\<close>, \<open>ValidateIsRegex_length_1000\<close>, \<open>ValidateIsRegex_length_1001\<close>,
  \<open>literal_shapes_caught\<close>). The screens for the other two are written \<^verbatim>\<open>\(\d\+\)\+\<close> and
  \<^verbatim>\<open>\(\w\+\)\*\w\*\<close>, in which \<^verbatim>\<open>\d\<close> and \<^verbatim>\<open>\w\<close> are character classes: they match
  \<^verbatim>\<open>(5+)+\<close>, not the text \<^verbatim>\<open>(\d+)+\<close>. Evaluated on the patterns \<^verbatim>\<open>(\d+)+\<close> and
  \<^verbatim>\<open>(\w+)*\w*\<close>, the validator accepts each of them whenever it compiles, and it rejects
  \<^verbatim>\<open>(5+)+\<close>, which contains none of the six shapes.
\<close>

theorem ValidateIsRegex_accepts_nested_digit_quantifier:
  "ValidateIsRegex compile nested_digits = (compile nested_digits \<noteq> None)
   \<and> ValidateIsRegex compile nested_words = (compile nested_words \<noteq> None)
   \<and> \<not> ValidateIsRegex compile ''(5+)+''"
  by (simp add: ValidateIsRegex_iff not_flagged short_patterns digit_group_flagged)

section \<open>Properties of the field path validation\<close>

lemma Split_Cons:
  "Split (c # cs) sep =
     (if c = sep then [] # Split cs sep
      else (c # hd (Split cs sep)) # tl (Split cs sep))"
  by (cases "Split cs sep") (simp_all add: Split_not_Nil)

lemma hd_Split_empty_iff:
  "hd (Split p sep) = [] \<longleftrightarrow> p = [] \<or> hd p = sep"
  by (cases p) (simp_all add: Split_Cons del: Split.simps(2))

lemma HasSuffix_single:
  "HasSuffix s [d] \<longleftrightarrow> s \<noteq> [] \<and> last s = d"
proof (cases s rule: rev_cases)
  case Nil
  then show ?thesis by (simp add: HasSuffix_def)
next
  case (snoc ys y)
  then show ?thesis by (auto simp: HasSuffix_def)
qed

lemma HasPrefix_single:
  "HasPrefix s [d] \<longleftrightarrow> s \<noteq> [] \<and> hd s = d"
  by (cases s) auto

lemma Contains_dots_Cons:
  "Contains (c # cs) ''..'' \<longleftrightarrow> (c = CHR ''.'' \<and> HasPrefix cs ''.'') \<or> Contains cs ''..''"
  by (cases cs) auto

lemma later_segments_nonempty:
  "list_all (\<lambda>s. s \<noteq> []) (tl (Split p (CHR ''.''))) \<longleftrightarrow>
     p = [] \<or> (\<not> HasSuffix p ''.'' \<and> \<not> Contains p ''..'')"
proof (induction p)
  case Nil
  then show ?case by simp
next
  case (Cons c cs)
  show ?case
  proof (cases "c = CHR ''.''")
    case True
    have "list_all (\<lambda>s. s \<noteq> []) (tl (Split (c # cs) (CHR ''.''))) \<longleftrightarrow>
          hd (Split cs (CHR ''.'')) \<noteq> [] \<and> list_all (\<lambda>s. s \<noteq> []) (tl (Split cs (CHR ''.'')))"
      using True by (cases "Split cs (CHR ''.'')") (simp_all add: Split_not_Nil)
    also have "\<dots> \<longleftrightarrow> (cs \<noteq> [] \<and> hd cs \<noteq> CHR ''.'') \<and> (\<not> HasSuffix cs ''.'' \<and> \<not> Contains cs ''..'')"
      using Cons.IH by (auto simp: hd_Split_empty_iff)
    also have "\<dots> \<longleftrightarrow> \<not> HasSuffix (c # cs) ''.'' \<and> \<not> Contains (c # cs) ''..''"
      using True by (auto simp: HasSuffix_single HasPrefix_single Contains_dots_Cons)
    finally show ?thesis by simp
  next
    case False
    have "list_all (\<lambda>s. s \<noteq> []) (tl (Split (c # cs) (CHR ''.''))) \<longleftrightarrow>
          list_all (\<lambda>s. s \<noteq> []) (tl (Split cs (CHR ''.'')))"
      using False by (simp add: Split_Cons del: Split.simps(2))
    also have "\<dots> \<longleftrightarrow> cs = [] \<or> (\<not> HasSuffix cs ''.'' \<and> \<not> Contains cs ''..'')"
      by (rule Cons.IH)
    also have "\<dots> \<longleftrightarrow> \<not> HasSuffix (c # cs) ''.'' \<and> \<not> Contains (c # cs) ''..''"
      using False by (auto simp: HasSuffix_single Contains_dots_Cons)
    finally show ?thesis by simp
  qed
qed

lemma segments_nonempty:
  "list_all (\<lambda>s. s \<noteq> []) (Split p (CHR ''.'')) \<longleftrightarrow>
     p \<noteq> [] \<and> \<not> HasPrefix p ''.'' \<and> \<not> HasSuffix p ''.'' \<and> \<not> Contains p ''..''"
proof -
  have "list_all (\<lambda>s. s \<noteq> []) (Split p (CHR ''.'')) \<longleftrightarrow>
        hd (Split p (CHR ''.'')) \<noteq> [] \<and> list_all (\<lambda>s. s \<noteq> []) (tl (Split p (CHR ''.'')))"
    by (cases "Split p (CHR ''.'')") (simp_all add: Split_not_Nil)
  then show ?thesis
    by (auto simp: later_segments_nonempty hd_Split_empty_iff HasPrefix_single)
qed

lemma is_path_char_iff: "is_path_char b \<longleftrightarrow> b = CHR ''.'' \<or> is_segment_char b"
  by (auto simp: is_path_char_def is_segment_char_def)

lemma dot_not_segment_char: "\<not> is_segment_char (CHR ''.'')"
  by (simp add: is_segment_char_def uppercase_def lowercase_def decimal_digits_def)

lemma is_letter_segment_char: "is_letter c \<Longrightarrow> is_segment_char c"
  by (auto simp: is_letter_def is_segment_char_def)

lemma segments_chars:
  "list_all (list_all is_segment_char) (Split p (CHR ''.'')) \<longleftrightarrow> list_all is_path_char p"
proof (induction p)
  case Nil
  then show ?case by simp
next
  case (Cons c cs)
  have "list_all (list_all is_segment_char) (Split cs (CHR ''.'')) \<longleftrightarrow>
        list_all is_segment_char (hd (Split cs (CHR ''.'')))
        \<and> list_all (list_all is_segment_char) (tl (Split cs (CHR ''.'')))"
    by (cases "Split cs (CHR ''.'')") (simp_all add: Split_not_Nil)
  with Cons.IH show ?case
    by (auto simp: Split_Cons is_path_char_iff dot_not_segment_char simp del: Split.simps(2))
qed

lemma hd_hd_Split:
  "p \<noteq> [] \<Longrightarrow> hd p \<noteq> sep \<Longrightarrow> hd (hd (Split p sep)) = hd p"
  by (cases p) (simp_all add: Split_Cons del: Split.simps(2))

lemma validPath_MatchString_iff:
  "validPath_MatchString p \<longleftrightarrow> p \<noteq> [] \<and> is_letter (hd p) \<and> list_all is_path_char p"
  by (cases p)
     (auto simp: validPath_MatchString_def is_letter_def is_path_char_def list_all_iff)

lemma code_valid_path_iff:
  "code_valid_path p \<longleftrightarrow>
     list_all (\<lambda>s. s \<noteq> []) (Split p (CHR ''.''))
     \<and> is_letter (hd (hd (Split p (CHR ''.''))))
     \<and> list_all (list_all is_segment_char) (Split p (CHR ''.''))"
proof (cases "Split p (CHR ''.'')")
  case Nil
  then show ?thesis by (simp add: Split_not_Nil)
next
  case (Cons first rest)
  have l: "list_all later_segment_ok rest \<longleftrightarrow>
           list_all (\<lambda>s. s \<noteq> []) rest \<and> list_all (list_all is_segment_char) rest"
    by (auto simp: list_all_iff later_segment_ok_def)
  show ?thesis
    using Cons
    by (cases first) (auto simp: code_valid_path_def segment_ok_def l is_letter_segment_char)
qed

lemma isValidFieldPath_iff: "isValidFieldPath p \<longleftrightarrow> code_valid_path p"
proof -
  have "isValidFieldPath p \<longleftrightarrow>
        (p \<noteq> [] \<and> \<not> HasPrefix p ''.'' \<and> \<not> HasSuffix p ''.'' \<and> \<not> Contains p ''..'')
        \<and> is_letter (hd p) \<and> list_all is_path_char p"
    by (auto simp: isValidFieldPath_def validPath_MatchString_iff)
  also have "\<dots> \<longleftrightarrow> list_all (\<lambda>s. s \<noteq> []) (Split p (CHR ''.''))
        \<and> is_letter (hd p) \<and> list_all (list_all is_segment_char) (Split p (CHR ''.''))"
    by (simp only: segments_nonempty segments_chars)
  also have "\<dots> \<longleftrightarrow> list_all (\<lambda>s. s \<noteq> []) (Split p (CHR ''.''))
        \<and> is_letter (hd (hd (Split p (CHR ''.''))))
        \<and> list_all (list_all is_segment_char) (Split p (CHR ''.''))"
  proof (cases "p \<noteq> [] \<and> hd p \<noteq> CHR ''.''")
    case True
    then show ?thesis by (simp add: hd_hd_Split)
  next
    case False
    then have "\<not> list_all (\<lambda>s. s \<noteq> []) (Split p (CHR ''.''))"
      by (auto simp: segments_nonempty HasPrefix_single)
    then show ?thesis by simp
  qed
  finally show ?thesis by (simp add: code_valid_path_iff)
qed

lemma spec_valid_path_accepted: "spec_valid_path p \<Longrightarrow> isValidFieldPath p"
proof -
  assume a: "spec_valid_path p"
  have "segment_ok s \<Longrightarrow> later_segment_ok s" for s
    by (cases s) (auto simp: segment_ok_def later_segment_ok_def is_letter_segment_char)
  then have "list_all segment_ok xs \<Longrightarrow> list_all later_segment_ok xs" for xs
    by (auto simp: list_all_iff)
  with a show ?thesis
    unfolding isValidFieldPath_iff code_valid_path_def spec_valid_path_def
    by (cases "Split p (CHR ''.'')") (auto simp: Split_not_Nil)
qed

text \<open>
  Claim C9, as stated: the validation accepts a string if and only if it is a non-empty
  dotted path in which every segment matches \<^verbatim>\<open>[A-Za-z][A-Za-z0-9_-]*\<close>. The path \<^verbatim>\<open>a.1\<close>
  is accepted, and its second segment begins with a digit.
\<close>

theorem isValidFieldPath_accepts_digit_segment:
  "isValidFieldPath ''a.1'' \<and> \<not> spec_valid_path ''a.1''"
  by (simp add: isValidFieldPath_def validPath_MatchString_def HasSuffix_def
        spec_valid_path_def segment_ok_def is_letter_def
        is_segment_char_def uppercase_def lowercase_def decimal_digits_def)

text \<open>
  Claim C9, amended. The validation accepts a string if and only if it is a non-empty
  dotted path whose first segment matches \<^verbatim>\<open>[A-Za-z][A-Za-z0-9_-]*\<close> and whose later segments
  each match \<^verbatim>\<open>[A-Za-z0-9_-]+\<close> (no empty segment, no leading or trailing dot); every path
  that is valid in the sense of the specification is accepted; \<^verbatim>\<open>userIdentity..arn\<close>,
  \<^verbatim>\<open>.x\<close>, \<^verbatim>\<open>x.\<close> and \<^verbatim>\<open>x y\<close> are rejected and \<^verbatim>\<open>x-y\<close> is accepted.
\<close>

theorem isValidFieldPath_segments:
  "isValidFieldPath path = code_valid_path path
   \<and> (spec_valid_path path \<longrightarrow> isValidFieldPath path)
   \<and> \<not> isValidFieldPath ''userIdentity..arn''
   \<and> \<not> isValidFieldPath ''.x''
   \<and> \<not> isValidFieldPath ''x.''
   \<and> \<not> isValidFieldPath ''x y''
   \<and> isValidFieldPath ''x-y''"
proof -
  have ex: "\<not> code_valid_path ''userIdentity..arn''" "\<not> code_valid_path ''.x''"
    "\<not> code_valid_path ''x.''" "\<not> code_valid_path ''x y''" "code_valid_path ''x-y''"
    by (simp_all add: code_valid_path_def segment_ok_def later_segment_ok_def is_letter_def
          is_segment_char_def uppercase_def lowercase_def decimal_digits_def)
  show ?thesis
    using spec_valid_path_accepted [of path] ex
    by (simp add: isValidFieldPath_iff)
qed

theorem isValidFieldPath_segments_witness:
  "spec_valid_path ''userIdentity.arn'' \<and> isValidFieldPath ''userIdentity.arn''
   \<and> code_valid_path ''userIdentity.arn''"
proof -
  have s: "spec_valid_path ''userIdentity.arn''"
    by (simp add: spec_valid_path_def segment_ok_def is_letter_def
          is_segment_char_def uppercase_def lowercase_def decimal_digits_def)
  with isValidFieldPath_segments [of "''userIdentity.arn''"] show ?thesis
    by blast
qed

section \<open>Properties of the retry driver\<close>

lemma infix_iff_window:
  "(\<exists>pre post. s = pre @ sub @ post) \<longleftrightarrow>
     (\<exists>k. k + length sub \<le> length s \<and> take (length sub) (drop k s) = sub)"
proof
  assume "\<exists>pre post. s = pre @ sub @ post"
  then obtain pre post where "s = pre @ sub @ post" by blast
  then have "length pre + length sub \<le> length s \<and> take (length sub) (drop (length pre) s) = sub"
    by simp
  then show "\<exists>k. k + length sub \<le> length s \<and> take (length sub) (drop k s) = sub" by blast
next
  assume "\<exists>k. k + length sub \<le> length s \<and> take (length sub) (drop k s) = sub"
  then obtain k where k: "k + length sub \<le> length s" "take (length sub) (drop k s) = sub"
    by blast
  have "s = take k s @ drop k s" by simp
  also have "drop k s = take (length sub) (drop k s) @ drop (length sub) (drop k s)"
    by (rule append_take_drop_id [symmetric])
  finally have "s = take k s @ sub @ drop (length sub) (drop k s)" using k(2) by simp
  then show "\<exists>pre post. s = pre @ sub @ post" by blast
qed

lemma containsMiddle_loop_iff:
  "containsMiddle_loop s sub i \<longleftrightarrow>
     (\<exists>k. i \<le> k \<and> k < length s - length sub \<and> take (length sub) (drop k s) = sub)"
proof (induction s sub i rule: containsMiddle_loop.induct)
  case (1 s sub i)
  show ?case
  proof (cases "i < length s - length sub")
    case False
    then show ?thesis
      by (subst containsMiddle_loop.simps) auto
  next
    case True
    show ?thesis
    proof (cases "take (length sub) (drop i s) = sub")
      case t: True
      with True show ?thesis
        by (subst containsMiddle_loop.simps) (auto simp: slice_def)
    next
      case f: False
      have "containsMiddle_loop s sub i = containsMiddle_loop s sub (i + 1)"
        using True f by (subst containsMiddle_loop.simps) (simp add: slice_def)
      also have "\<dots> \<longleftrightarrow>
          (\<exists>k. i + 1 \<le> k \<and> k < length s - length sub \<and> take (length sub) (drop k s) = sub)"
        using "1.IH" True f by (simp add: slice_def)
      also have "\<dots> \<longleftrightarrow>
          (\<exists>k. i \<le> k \<and> k < length s - length sub \<and> take (length sub) (drop k s) = sub)"
      proof
        assume "\<exists>k. i + 1 \<le> k \<and> k < length s - length sub \<and> take (length sub) (drop k s) = sub"
        then obtain k where "i + 1 \<le> k" "k < length s - length sub"
          "take (length sub) (drop k s) = sub" by blast
        then have "i \<le> k \<and> k < length s - length sub \<and> take (length sub) (drop k s) = sub"
          by simp
        then show "\<exists>k. i \<le> k \<and> k < length s - length sub \<and> take (length sub) (drop k s) = sub"
          by blast
      next
        assume "\<exists>k. i \<le> k \<and> k < length s - length sub \<and> take (length sub) (drop k s) = sub"
        then obtain k where k: "i \<le> k" "k < length s - length sub"
          "take (length sub) (drop k s) = sub" by blast
        with f have "k \<noteq> i" by auto
        with k have "i + 1 \<le> k \<and> k < length s - length sub \<and> take (length sub) (drop k s) = sub"
          by simp
        then show "\<exists>k. i + 1 \<le> k \<and> k < length s - length sub \<and> take (length sub) (drop k s) = sub"
          by blast
      qed
      finally show ?thesis .
    qed
  qed
qed

lemma contains_iff_window:
  "contains s sub \<longleftrightarrow>
     sub \<noteq> [] \<and> (\<exists>k. k + length sub \<le> length s \<and> take (length sub) (drop k s) = sub)"
proof (cases "sub = [] \<or> length s < length sub")
  case True
  then show ?thesis by (auto simp: contains_def)
next
  case False
  then have ne: "sub \<noteq> []" and le: "length sub \<le> length s" by simp_all
  show ?thesis
  proof (cases "length s = length sub")
    case True
    then have "contains s sub \<longleftrightarrow> s = sub"
      using ne by (auto simp: contains_def containsMiddle_def)
    moreover have "(\<exists>k. k + length sub \<le> length s \<and> take (length sub) (drop k s) = sub)
         \<longleftrightarrow> s = sub"
      using True by auto
    ultimately show ?thesis using ne by simp
  next
    case False
    with le have lt: "length sub < length s" by simp
    define d where "d = length s - length sub"
    have d: "d + length sub = length s" "0 < d" using lt by (simp_all add: d_def)
    have c: "contains s sub \<longleftrightarrow>
        take (length sub) (drop 0 s) = sub \<or> take (length sub) (drop d s) = sub
        \<or> (\<exists>k. 1 \<le> k \<and> k < d \<and> take (length sub) (drop k s) = sub)"
      using ne lt
      by (auto simp: contains_def containsMiddle_def containsMiddle_loop_iff slice_def d_def)
    have w: "(\<exists>k. k + length sub \<le> length s \<and> take (length sub) (drop k s) = sub) \<longleftrightarrow>
          (\<exists>k\<le>d. take (length sub) (drop k s) = sub)"
      using d by (metis add_le_cancel_right)
    have "(\<exists>k\<le>d. take (length sub) (drop k s) = sub) \<longleftrightarrow>
        take (length sub) (drop 0 s) = sub \<or> take (length sub) (drop d s) = sub
        \<or> (\<exists>k. 1 \<le> k \<and> k < d \<and> take (length sub) (drop k s) = sub)"
    proof
      assume "\<exists>k\<le>d. take (length sub) (drop k s) = sub"
      then obtain k where k: "k \<le> d" "take (length sub) (drop k s) = sub" by blast
      consider "k = 0" | "k = d" | "1 \<le> k \<and> k < d" using k(1) by linarith
      then show "take (length sub) (drop 0 s) = sub \<or> take (length sub) (drop d s) = sub
        \<or> (\<exists>k. 1 \<le> k \<and> k < d \<and> take (length sub) (drop k s) = sub)"
        using k(2) by cases auto
    next
      assume "take (length sub) (drop 0 s) = sub \<or> take (length sub) (drop d s) = sub
        \<or> (\<exists>k. 1 \<le> k \<and> k < d \<and> take (length sub) (drop k s) = sub)"
      then show "\<exists>k\<le>d. take (length sub) (drop k s) = sub"
        by (metis le0 le_refl less_imp_le)
    qed
    with c w ne show ?thesis by simp
  qed
qed

lemma contains_iff_infix:
  "contains s sub \<longleftrightarrow> sub \<noteq> [] \<and> (\<exists>pre post. s = pre @ sub @ post)"
  by (simp add: contains_iff_window infix_iff_window)

lemma IsRetryable_loop_iff:
  "IsRetryable_loop errStr ps \<longleftrightarrow> (\<exists>p\<in>set ps. contains errStr p)"
  by (induction ps) auto

lemma retryablePatterns_nonempty: "p \<in> set retryablePatterns \<Longrightarrow> p \<noteq> []"
  by (auto simp: retryablePatterns_def)

lemma IsRetryable_iff:
  "IsRetryable err \<longleftrightarrow>
     (\<exists>msg. err = Some msg \<and>
        (\<exists>p\<in>set retryablePatterns. \<exists>pre post. msg = pre @ p @ post))"
  by (cases err)
     (auto simp: IsRetryable_def IsRetryable_loop_iff contains_iff_infix
        retryablePatterns_nonempty)


lemma DoWithConfig_loop_never_gives_up:
  "RetryableError cfg = (\<lambda>err. True) \<Longrightarrow>
   fst (DoWithConfig_loop doneBefore doneInSleep fn cfg attempt lastErr s) \<noteq> Some (Returned e)"
proof (induction doneBefore doneInSleep fn cfg attempt lastErr s
        rule: DoWithConfig_loop.induct)
  case (1 doneBefore doneInSleep fn cfg attempt lastErr s)
  obtain r s' where f: "fn s = (r, s')" by (cases "fn s")
  show ?case
  proof (cases "attempt \<le> MaxRetries cfg \<and> \<not> doneBefore attempt \<and> r \<noteq> None
                \<and> attempt \<noteq> MaxRetries cfg \<and> \<not> doneInSleep attempt")
    case True
    then obtain err where r: "r = Some err" by auto
    have "fst (DoWithConfig_loop doneBefore doneInSleep fn cfg (attempt + 1) (Some err) s')
         \<noteq> Some (Returned e)"
      using "1.IH" [OF _ _ f [symmetric] r] True "1.prems" by simp
    with True r f "1.prems" show ?thesis
      by (subst DoWithConfig_loop.simps) simp
  next
    case False
    with f "1.prems" show ?thesis
      by (subst DoWithConfig_loop.simps) (auto split: option.splits)
  qed
qed

lemma Do_default_never_gives_up:
  "fst (Do doneBefore doneInSleep fn [] s) \<noteq> Some (Returned e)"
  unfolding Do_def DoWithConfig_def
  by (rule DoWithConfig_loop_never_gives_up) (simp add: DefaultConfig_def)

lemma Do_default_always_fails:
  "Do (\<lambda>n. False) (\<lambda>n. False) (always_fails msg) [] 0
     = (Some (FailedAfterRetries 3 (Some msg)), 4)"
  by (simp add: Do_def DoWithConfig_def DefaultConfig_def always_fails_def
        DoWithConfig_loop.simps)

lemma Do_IsRetryable_gives_up:
  "\<not> IsRetryable (Some msg) \<Longrightarrow>
   Do (\<lambda>n. False) (\<lambda>n. False) (always_fails msg) [WithRetryableError IsRetryable] 0
     = (Some (Returned msg), 1)"
  by (simp add: Do_def DoWithConfig_def DefaultConfig_def always_fails_def WithRetryableError_def
        DoWithConfig_loop.simps)

lemma access_denied_not_retryable: "\<not> IsRetryable (Some ''access denied'')"
  by code_simp

lemma foldl_keeps_predicate:
  "\<forall>opt\<in>set opts. \<forall>c. RetryableError (opt c) = RetryableError c \<Longrightarrow>
   RetryableError (foldl (\<lambda>cfg opt. opt cfg) c0 opts) = RetryableError c0"
  by (induction opts arbitrary: c0) simp_all

lemma options_keep_predicate:
  "RetryableError (WithMaxRetries n c) = RetryableError c"
  "RetryableError (WithBaseDelay d c) = RetryableError c"
  "RetryableError (WithMaxDelay d c) = RetryableError c"
  "RetryableError (WithMultiplier m c) = RetryableError c"
  "RetryableError (WithJitter j c) = RetryableError c"
  by (simp_all add: WithMaxRetries_def WithBaseDelay_def WithMaxDelay_def WithMultiplier_def
        WithJitter_def)

lemma WithRetryableError_sets_predicate:
  "RetryableError (WithRetryableError f c) = f"
  by (simp add: WithRetryableError_def)

lemma Do_without_predicate_never_gives_up:
  assumes "\<forall>opt\<in>set opts. \<forall>c. RetryableError (opt c) = RetryableError c"
  shows "fst (Do doneBefore doneInSleep fn opts s) \<noteq> Some (Returned e)"
  unfolding Do_def DoWithConfig_def
  by (rule DoWithConfig_loop_never_gives_up)
     (simp add: foldl_keeps_predicate [OF assms] DefaultConfig_def)

lemma DoWithConfig_loop_always_fails_aux:
  "RetryableError cfg = (\<lambda>err. True) \<Longrightarrow> attempt \<le> MaxRetries cfg \<Longrightarrow>
   nat (MaxRetries cfg - attempt) = k \<Longrightarrow>
   DoWithConfig_loop (\<lambda>n. False) (\<lambda>n. False) (always_fails msg) cfg attempt lastErr calls
     = (Some (FailedAfterRetries (MaxRetries cfg) (Some msg)), calls + k + 1)"
proof (induction k arbitrary: attempt lastErr calls)
  case 0
  then have "attempt = MaxRetries cfg" by simp
  with "0.prems"(1) show ?case
    by (subst DoWithConfig_loop.simps) (simp add: always_fails_def)
next
  case (Suc k)
  from Suc.prems have lt: "attempt + 1 \<le> MaxRetries cfg" and ne: "attempt \<noteq> MaxRetries cfg"
    and k: "nat (MaxRetries cfg - (attempt + 1)) = k"
    by simp_all
  from Suc.IH [OF Suc.prems(1) lt k, of "Some msg" "calls + 1"]
  have "DoWithConfig_loop (\<lambda>n. False) (\<lambda>n. False) (always_fails msg) cfg (attempt + 1)
          (Some msg) (calls + 1)
        = (Some (FailedAfterRetries (MaxRetries cfg) (Some msg)), calls + Suc k + 1)"
    by simp
  with Suc.prems(1,2) ne show ?case
    by (subst DoWithConfig_loop.simps) (simp add: always_fails_def)
qed

lemma DoWithConfig_loop_always_fails:
  "RetryableError cfg = (\<lambda>err. True) \<Longrightarrow> attempt \<le> MaxRetries cfg \<Longrightarrow>
   DoWithConfig_loop (\<lambda>n. False) (\<lambda>n. False) (always_fails msg) cfg attempt lastErr calls
     = (Some (FailedAfterRetries (MaxRetries cfg) (Some msg)),
        calls + nat (MaxRetries cfg - attempt) + 1)"
  by (rule DoWithConfig_loop_always_fails_aux) simp_all

lemma Do_without_predicate_always_fails:
  assumes "\<forall>opt\<in>set opts. \<forall>c. RetryableError (opt c) = RetryableError c"
  shows "Do (\<lambda>n. False) (\<lambda>n. False) (always_fails msg) opts 0 =
     (let n = MaxRetries (foldl (\<lambda>cfg opt. opt cfg) DefaultConfig opts)
      in if 0 \<le> n then (Some (FailedAfterRetries n (Some msg)), nat n + 1)
         else (Some (FailedAfterRetries n None), 0))"
proof -
  define cfg where "cfg = foldl (\<lambda>cfg opt. opt cfg) DefaultConfig opts"
  have p: "RetryableError cfg = (\<lambda>err. True)"
    unfolding cfg_def by (simp add: foldl_keeps_predicate [OF assms] DefaultConfig_def)
  show ?thesis
  proof (cases "0 \<le> MaxRetries cfg")
    case True
    from DoWithConfig_loop_always_fails [OF p True, of msg None 0] True show ?thesis
      by (simp add: Do_def DoWithConfig_def cfg_def [symmetric] Let_def)
  next
    case False
    then show ?thesis
      by (simp add: Do_def DoWithConfig_def cfg_def [symmetric] Let_def DoWithConfig_loop.simps)
  qed
qed

text \<open>
  Claim C10, as stated: when the retry driver is invoked without an explicit
  retryable-error predicate, an error is retried if and only if its message contains one of
  the known transient substrings. The message \<^verbatim>\<open>access denied\<close> contains none of them, and
  the driver invoked without options retries it until the attempts are exhausted: the
  default predicate of \<open>DefaultConfig\<close> accepts every error.
\<close>

theorem default_retries_error_without_transient_substring:
  "\<not> (\<exists>p\<in>set retryablePatterns. \<exists>pre post. ''access denied'' = pre @ p @ post)
   \<and> RetryableError DefaultConfig (Some ''access denied'')
   \<and> Do (\<lambda>n. False) (\<lambda>n. False) (always_fails ''access denied'') [] 0
       = (Some (FailedAfterRetries 3 (Some ''access denied'')), 4)"
  using access_denied_not_retryable
  by (simp add: IsRetryable_iff Do_default_always_fails DefaultConfig_def)


text \<open>
  Claim C10, amended. When the retry driver is invoked without an option that sets the
  retryable-error predicate (with no option, or with options such as \<open>WithMaxRetries\<close>,
  \<open>WithBaseDelay\<close>, \<open>WithMaxDelay\<close>, \<open>WithMultiplier\<close> and \<open>WithJitter\<close>, which leave
  the predicate as it is), every error is treated as retryable: the predicate in force is
  the default one, which is true of every error, the driver never returns the error of the
  operation as it is, and an operation that always fails is called once more than the
  configured number of retries (four times under the default of three). The predicate
  \<open>IsRetryable\<close>, which a caller passes with \<open>WithRetryableError\<close>, treats an error as
  retryable if and only if it is not nil and its message contains one of the known
  transient substrings; with it, an error without such a substring is returned after the
  first attempt.
\<close>

theorem default_predicate_retries_every_error:
  "(\<forall>err. RetryableError DefaultConfig err)
   \<and> ((\<forall>opt\<in>set opts. \<forall>c. RetryableError (opt c) = RetryableError c) \<longrightarrow>
        (\<forall>err. RetryableError (foldl (\<lambda>cfg opt. opt cfg) DefaultConfig opts) err)
        \<and> (\<forall>e. fst (Do doneBefore doneInSleep fn opts s) \<noteq> Some (Returned e))
        \<and> Do (\<lambda>n. False) (\<lambda>n. False) (always_fails msg) opts 0 =
            (let n = MaxRetries (foldl (\<lambda>cfg opt. opt cfg) DefaultConfig opts)
             in if 0 \<le> n then (Some (FailedAfterRetries n (Some msg)), nat n + 1)
                else (Some (FailedAfterRetries n None), 0)))
   \<and> (\<forall>n d m j c.
          RetryableError (WithMaxRetries n c) = RetryableError c
          \<and> RetryableError (WithBaseDelay d c) = RetryableError c
          \<and> RetryableError (WithMaxDelay d c) = RetryableError c
          \<and> RetryableError (WithMultiplier m c) = RetryableError c
          \<and> RetryableError (WithJitter j c) = RetryableError c)
   \<and> (\<forall>e. fst (Do doneBefore doneInSleep fn [] s) \<noteq> Some (Returned e))
   \<and> Do (\<lambda>n. False) (\<lambda>n. False) (always_fails msg) [] 0
       = (Some (FailedAfterRetries 3 (Some msg)), 4)
   \<and> (IsRetryable err \<longleftrightarrow>
        (\<exists>m. err = Some m \<and> (\<exists>p\<in>set retryablePatterns. \<exists>pre post. m = pre @ p @ post)))
   \<and> (\<forall>f c. RetryableError (WithRetryableError f c) = f)
   \<and> (\<not> IsRetryable (Some msg) \<longrightarrow>
        Do (\<lambda>n. False) (\<lambda>n. False) (always_fails msg) [WithRetryableError IsRetryable] 0
          = (Some (Returned msg), 1))
   \<and> Do doneBefore doneInSleep fn opts s =
       DoWithConfig_loop doneBefore doneInSleep fn
         (foldl (\<lambda>cfg opt. opt cfg) DefaultConfig opts) 0 None s
   \<and> (attempt \<le> MaxRetries cfg \<and> \<not> doneBefore attempt \<and> fn s = (Some failure, s')
        \<and> \<not> RetryableError cfg (Some failure) \<longrightarrow>
        DoWithConfig_loop doneBefore doneInSleep fn cfg attempt lastErr s
          = (Some (Returned failure), s'))
   \<and> (attempt < MaxRetries cfg \<and> \<not> doneBefore attempt \<and> fn s = (Some failure, s')
        \<and> RetryableError cfg (Some failure) \<and> \<not> doneInSleep attempt \<longrightarrow>
        DoWithConfig_loop doneBefore doneInSleep fn cfg attempt lastErr s
          = DoWithConfig_loop doneBefore doneInSleep fn cfg (attempt + 1) (Some failure) s')"
proof (intro conjI allI impI)
  show "Do doneBefore doneInSleep fn opts s =
       DoWithConfig_loop doneBefore doneInSleep fn
         (foldl (\<lambda>cfg opt. opt cfg) DefaultConfig opts) 0 None s"
    by (simp add: Do_def DoWithConfig_def)
  show "DoWithConfig_loop doneBefore doneInSleep fn cfg attempt lastErr s
          = (Some (Returned failure), s')"
    if "attempt \<le> MaxRetries cfg \<and> \<not> doneBefore attempt \<and> fn s = (Some failure, s')
        \<and> \<not> RetryableError cfg (Some failure)"
    using that by (subst DoWithConfig_loop.simps) simp
  show "DoWithConfig_loop doneBefore doneInSleep fn cfg attempt lastErr s
          = DoWithConfig_loop doneBefore doneInSleep fn cfg (attempt + 1) (Some failure) s'"
    if "attempt < MaxRetries cfg \<and> \<not> doneBefore attempt \<and> fn s = (Some failure, s')
        \<and> RetryableError cfg (Some failure) \<and> \<not> doneInSleep attempt"
    using that by (subst DoWithConfig_loop.simps) simp
  show "RetryableError DefaultConfig err" for err
    by (simp add: DefaultConfig_def)
  show "fst (Do doneBefore doneInSleep fn [] s) \<noteq> Some (Returned e)" for e
    by (rule Do_default_never_gives_up)
  show "Do (\<lambda>n. False) (\<lambda>n. False) (always_fails msg) [] 0
       = (Some (FailedAfterRetries 3 (Some msg)), 4)"
    by (rule Do_default_always_fails)
  show "IsRetryable err \<longleftrightarrow>
        (\<exists>m. err = Some m \<and> (\<exists>p\<in>set retryablePatterns. \<exists>pre post. m = pre @ p @ post))"
    by (rule IsRetryable_iff)
  show "Do (\<lambda>n. False) (\<lambda>n. False) (always_fails msg) [WithRetryableError IsRetryable] 0
          = (Some (Returned msg), 1)" if "\<not> IsRetryable (Some msg)"
    using that by (rule Do_IsRetryable_gives_up)
  show "RetryableError (WithRetryableError f c) = f" for f c
    by (rule WithRetryableError_sets_predicate)
  show "RetryableError (WithMaxRetries n c) = RetryableError c" for n c
    by (rule options_keep_predicate)
  show "RetryableError (WithBaseDelay d c) = RetryableError c" for d c
    by (rule options_keep_predicate)
  show "RetryableError (WithMaxDelay d c) = RetryableError c" for d c
    by (rule options_keep_predicate)
  show "RetryableError (WithMultiplier m c) = RetryableError c" for m c
    by (rule options_keep_predicate)
  show "RetryableError (WithJitter j c) = RetryableError c" for j c
    by (rule options_keep_predicate)
next
  assume h: "\<forall>opt\<in>set opts. \<forall>c. RetryableError (opt c) = RetryableError c"
  show "RetryableError (foldl (\<lambda>cfg opt. opt cfg) DefaultConfig opts) err" for err
    by (simp add: foldl_keeps_predicate [OF h] DefaultConfig_def)
  show "fst (Do doneBefore doneInSleep fn opts s) \<noteq> Some (Returned e)" for e
    by (rule Do_without_predicate_never_gives_up [OF h])
  show "Do (\<lambda>n. False) (\<lambda>n. False) (always_fails msg) opts 0 =
            (let n = MaxRetries (foldl (\<lambda>cfg opt. opt cfg) DefaultConfig opts)
             in if 0 \<le> n then (Some (FailedAfterRetries n (Some msg)), nat n + 1)
                else (Some (FailedAfterRetries n None), 0))"
    by (rule Do_without_predicate_always_fails [OF h])
qed

theorem default_predicate_retries_every_error_witness:
  "Do (\<lambda>n. False) (\<lambda>n. False) (always_fails ''access denied'')
        [WithMaxRetries 1, WithBaseDelay 1000] 0
       = (Some (FailedAfterRetries 1 (Some ''access denied'')), 2)
   \<and> \<not> IsRetryable (Some ''access denied'')
   \<and> Do (\<lambda>n. False) (\<lambda>n. False) (always_fails ''access denied'')
        [WithRetryableError IsRetryable] 0
       = (Some (Returned ''access denied''), 1)
   \<and> IsRetryable (Some ''request timeout'')"
proof -
  note t = default_predicate_retries_every_error
    [where msg = "''access denied''" and err = "Some ''request timeout''"
       and doneBefore = "\<lambda>n. False" and doneInSleep = "\<lambda>n. False"
       and fn = "always_fails ''access denied''" and s = 0
       and opts = "[WithMaxRetries 1, WithBaseDelay 1000]"]
  note t2 = t [THEN conjunct2, THEN conjunct1]
  note t6 = t [THEN conjunct2, THEN conjunct2, THEN conjunct2, THEN conjunct2, THEN conjunct2,
               THEN conjunct1]
  note t8 = t [THEN conjunct2, THEN conjunct2, THEN conjunct2, THEN conjunct2, THEN conjunct2,
               THEN conjunct2, THEN conjunct2, THEN conjunct1]
  have h: "\<forall>opt\<in>set [WithMaxRetries 1, WithBaseDelay 1000].
             \<forall>c. RetryableError (opt c) = RetryableError c"
    by (simp add: WithMaxRetries_def WithBaseDelay_def)
  from t2 h have "Do (\<lambda>n. False) (\<lambda>n. False) (always_fails ''access denied'')
        [WithMaxRetries 1, WithBaseDelay 1000] 0 =
            (let n = MaxRetries (foldl (\<lambda>cfg opt. opt cfg) DefaultConfig
                                    [WithMaxRetries 1, WithBaseDelay 1000])
             in if 0 \<le> n then (Some (FailedAfterRetries n (Some ''access denied'')), nat n + 1)
                else (Some (FailedAfterRetries n None), 0))"
    by (rule mp [THEN conjunct2, THEN conjunct2])
  then have c: "Do (\<lambda>n. False) (\<lambda>n. False) (always_fails ''access denied'')
        [WithMaxRetries 1, WithBaseDelay 1000] 0
       = (Some (FailedAfterRetries 1 (Some ''access denied'')), 2)"
    by (simp add: WithMaxRetries_def WithBaseDelay_def DefaultConfig_def)
  have "''request timeout'' = ''request '' @ ''timeout'' @ []" by simp
  moreover have "''timeout'' \<in> set retryablePatterns" by (simp add: retryablePatterns_def)
  ultimately have "\<exists>m. Some ''request timeout'' = Some m
      \<and> (\<exists>p\<in>set retryablePatterns. \<exists>pre post. m = pre @ p @ post)"
    by blast
  with t6 have a: "IsRetryable (Some ''request timeout'')" by simp
  from t8 access_denied_not_retryable
  have b: "Do (\<lambda>n. False) (\<lambda>n. False) (always_fails ''access denied'')
        [WithRetryableError IsRetryable] 0
       = (Some (Returned ''access denied''), 1)" by simp
  from a b c access_denied_not_retryable show ?thesis by simp
qed

end
